theory Spec2Isabelle
  imports Complex_Main
begin

section \<open>Errors raised by the Python code\<close>

text \<open>
  Every exception the modelled functions can raise is a value of \<open>py_error\<close>; a function
  that can raise returns \<open>py_error + 'a\<close>, with \<open>Inl\<close> for the exception.
  Python floats are modelled as \<open>real\<close> (exact arithmetic, no rounding, no NaN), Python
  ints as \<open>int\<close>, list positions produced by \<open>range\<close> as \<open>nat\<close>.
\<close>

datatype py_error = IndexError | ValueError | ZeroDivisionError

section \<open>coverage\_calculation.py\<close>

subsection \<open>generate\_coverage\_map\<close>

text \<open>
  \<open>coverage[k] = v\<close> on a Python list: a negative \<open>k\<close> counts from the end, and a
  position outside \<open>[-len, len)\<close> raises IndexError.
\<close>

definition set_item :: "'a list \<Rightarrow> int \<Rightarrow> 'a \<Rightarrow> py_error + 'a list" where
  "set_item xs k v =
     (let n = int (length xs); j = (if k < 0 then k + n else k)
      in if 0 \<le> j \<and> j < n then Inr (xs[nat j := v]) else Inl IndexError)"

text \<open>
  The loop \<open>for i in range(len(estimated_nodes)-1)\<close> visits the consecutive pairs
  \<open>(estimated_nodes[i], estimated_nodes[i+1])\<close> from left to right and stops at the
  first assignment that raises.
\<close>

fun coverage_loop :: "int list \<Rightarrow> int \<Rightarrow> nat list \<Rightarrow> py_error + nat list" where
  "coverage_loop (x # y # rest) number_of_nodes coverage =
     (case set_item coverage (x * number_of_nodes + y) 1 of
        Inl e \<Rightarrow> Inl e
      | Inr coverage' \<Rightarrow> coverage_loop (y # rest) number_of_nodes coverage')"
| "coverage_loop estimated_nodes number_of_nodes coverage = Inr coverage"

text \<open>
  \<open>viterbi_res\<close> is the pair the decoder returns: a score and the path, a list of
  (state index, state object) pairs. \<open>range(n * n)\<close> is empty for \<open>n * n \<le> 0\<close>.
\<close>

definition generate_coverage_map :: "'l \<times> (int \<times> 's) list \<Rightarrow> int \<Rightarrow> py_error + nat list" where
  "generate_coverage_map viterbi_res number_of_nodes =
     (let estimated_nodes = map fst (snd viterbi_res);
          coverage = replicate (nat (number_of_nodes * number_of_nodes)) (0::nat)
      in coverage_loop estimated_nodes number_of_nodes coverage)"

text \<open>The flat positions the loop writes, in order.\<close>

fun edge_indices :: "int list \<Rightarrow> int \<Rightarrow> int list" where
  "edge_indices (x # y # rest) n = (x * n + y) # edge_indices (y # rest) n"
| "edge_indices estimated_nodes n = []"

text \<open>Number of set bits of a 0/1 list.\<close>

definition popcount :: "nat list \<Rightarrow> nat" where
  "popcount bm = length (filter (\<lambda>b. b \<noteq> 0) bm)"

subsection \<open>calculate\_coverage\<close>

text \<open>
  \<open>np.logical_or\<close> on two one-dimensional arrays: elementwise on equal lengths, a
  length-one operand is broadcast, any other pair of shapes raises ValueError. The
  integer 0 counts as False, every other entry as True.
\<close>

definition logical_or :: "bool list \<Rightarrow> bool list \<Rightarrow> py_error + bool list" where
  "logical_or xs ys =
     (if length xs = length ys then Inr (map2 (\<or>) xs ys)
      else if length xs = 1 then Inr (map (\<lambda>y. hd xs \<or> y) ys)
      else if length ys = 1 then Inr (map (\<lambda>x. x \<or> hd ys) xs)
      else Inl ValueError)"

text \<open>\<open>sum(coverage_summarized)\<close> on a boolean array counts its True entries.\<close>

definition sum_bools :: "bool list \<Rightarrow> nat" where
  "sum_bools bs = length (filter (\<lambda>b. b) bs)"

text \<open>
  The inner loop \<open>for seq in data\<close>. The state is the pair
  (\<open>coverage_summarized\<close>, \<open>cov_over_time\<close>); \<open>viterbi\<close> stands for \<open>model.viterbi\<close>.
  The division \<open>sum(...) / (no_components * no_components)\<close> raises
  ZeroDivisionError when the divisor is 0.
\<close>

fun calculate_coverage_data ::
  "('q \<Rightarrow> 'l \<times> (int \<times> 's) list) \<Rightarrow> int \<Rightarrow> 'q list \<Rightarrow> bool list \<times> real list
     \<Rightarrow> py_error + bool list \<times> real list" where
  "calculate_coverage_data viterbi no_components [] st = Inr st"
| "calculate_coverage_data viterbi no_components (seq # data) (coverage_summarized, cov_over_time) =
     (case generate_coverage_map (viterbi seq) no_components of
        Inl e \<Rightarrow> Inl e
      | Inr coverage \<Rightarrow>
          (case logical_or coverage_summarized (map (\<lambda>c. c \<noteq> 0) coverage) of
             Inl e \<Rightarrow> Inl e
           | Inr coverage_summarized' \<Rightarrow>
               if no_components * no_components = 0 then Inl ZeroDivisionError
               else calculate_coverage_data viterbi no_components data
                      (coverage_summarized',
                       cov_over_time @ [real (sum_bools coverage_summarized')
                                          / real_of_int (no_components * no_components)])))"

text \<open>
  The outer loop \<open>for file in files\<close>; \<open>load\<close> stands for \<open>joblib.load\<close> of the file
  in the data folder and returns the sequences stored there.
\<close>

fun calculate_coverage_files ::
  "('q \<Rightarrow> 'l \<times> (int \<times> 's) list) \<Rightarrow> ('f \<Rightarrow> 'q list) \<Rightarrow> int \<Rightarrow> 'f list
     \<Rightarrow> bool list \<times> real list \<Rightarrow> py_error + bool list \<times> real list" where
  "calculate_coverage_files viterbi load no_components [] st = Inr st"
| "calculate_coverage_files viterbi load no_components (file # files) st =
     (case calculate_coverage_data viterbi no_components (load file) st of
        Inl e \<Rightarrow> Inl e
      | Inr st' \<Rightarrow> calculate_coverage_files viterbi load no_components files st')"

definition calculate_coverage ::
  "('q \<Rightarrow> 'l \<times> (int \<times> 's) list) \<Rightarrow> ('f \<Rightarrow> 'q list) \<Rightarrow> int \<Rightarrow> 'f list
     \<Rightarrow> py_error + bool list \<times> real list" where
  "calculate_coverage viterbi load no_components files =
     calculate_coverage_files viterbi load no_components files
       (replicate (nat (no_components * no_components)) False, [])"

text \<open>
  One step of the accumulation (\<open>or_bitmap\<close>), the cumulative OR of a list of bitmaps
  over \<open>n\<^sup>2\<close> edges, starting from the all-zero bitmap, and the covered fraction of a
  bitmap: the quantities the trace is compared with.
\<close>

abbreviation or_bitmap :: "bool list \<Rightarrow> nat list \<Rightarrow> bool list" where
  "or_bitmap acc bm \<equiv> map2 (\<or>) acc (map (\<lambda>c. c \<noteq> 0) bm)"

definition cumulative_or :: "int \<Rightarrow> nat list list \<Rightarrow> bool list" where
  "cumulative_or n bitmaps = foldl or_bitmap (replicate (nat (n * n)) False) bitmaps"

definition covered_fraction :: "int \<Rightarrow> bool list \<Rightarrow> real" where
  "covered_fraction n bs = real (sum_bools bs) / real_of_int (n * n)"

section \<open>measures.py\<close>

subsection \<open>normalize\<close>

text \<open>
  The source's \<open>normalize\<close>, named \<open>normalize_curve\<close> here because HOL has a constant
  \<open>normalize\<close> of its own.
  \<open>min\<close> and \<open>max\<close> of the list with the leading \<open>0.0\<close>, which is never empty.
  The degenerate branch builds one \<open>1.0\<close> per \<open>i\<close> in \<open>range(len(curve) - 1)\<close>, where
  \<open>curve\<close> already has the leading \<open>0.0\<close>; the other branch maps over \<open>curve[1:]\<close>.
  The model computes in exact arithmetic. On doubles \<open>max_val - min_val\<close> can overflow
  (\<open>[1e308, -1e308]\<close> gives \<open>nan\<close>) and the quotient can underflow to \<open>0.0\<close>
  (\<open>[1e-320, 1e10]\<close>); for a curve with values in \<open>[0, 1]\<close> neither happens:
  \<open>min_val\<close> is \<open>0.0\<close>, both subtractions are exact, and \<open>x / max_val\<close> with
  \<open>0 < x \<le> max_val \<le> 1\<close> is at least \<open>x\<close> and at most 1.
\<close>

definition normalize_curve :: "real list \<Rightarrow> real list" where
  "normalize_curve curve0 =
     (let curve = 0 # curve0;
          min_val = Min (set curve);
          max_val = Max (set curve)
      in if min_val = max_val then 0 # map (\<lambda>i. 1) [0..<length curve - 1]
         else map (\<lambda>x. (x - min_val) / (max_val - min_val)) (tl curve))"

subsection \<open>np.gradient\<close>

text \<open>
  \<open>np.gradient\<close> of a one-dimensional array with unit spacing and the default
  \<open>edge_order = 1\<close>: the one-sided difference at both ends, the central difference
  \<open>(f[i+1] - f[i-1]) / 2\<close> in the interior, and ValueError for fewer than two elements.
\<close>

definition gradient :: "real list \<Rightarrow> py_error + real list" where
  "gradient f =
     (let n = length f
      in if n < 2 then Inl ValueError
         else Inr (map (\<lambda>i. if i = 0 then f ! 1 - f ! 0
                             else if i = n - 1 then f ! (n - 1) - f ! (n - 2)
                             else (f ! (i + 1) - f ! (i - 1)) / 2) [0..<n]))"

subsection \<open>calculate\_coverage\_similarity\<close>

text \<open>
  A candidate or a match is the triple (fuzzer index, hmm index, distance); the source's
  variable \<open>dist\<close> is written \<open>distance\<close>.
\<close>

type_synonym match = "nat \<times> nat \<times> int"

text \<open>
  Step 1: the bitmap of increases over the first \<open>gradient_number\<close> positions, and the
  positions whose bitmap entry is positive.
\<close>

definition increase_bitmap :: "real list \<Rightarrow> nat \<Rightarrow> nat list" where
  "increase_bitmap gradient_c gradient_number =
     map (\<lambda>i. if gradient_c ! i > 0 then 1 else 0) [0..<gradient_number]"

definition increase_indices :: "real list \<Rightarrow> nat \<Rightarrow> nat list" where
  "increase_indices gradient_c gradient_number =
     filter (\<lambda>i. increase_bitmap gradient_c gradient_number ! i > 0) [0..<gradient_number]"

text \<open>
  Step 2, the inner loop over \<open>indices_hmm\<close> for one \<open>current_fuzzer\<close>: \<open>continue\<close>
  skips an hmm index too far below, \<open>break\<close> leaves the loop at the first one too far
  above.
\<close>

fun matches_for :: "nat \<Rightarrow> nat list \<Rightarrow> int \<Rightarrow> match list" where
  "matches_for current_fuzzer [] max_distance = []"
| "matches_for current_fuzzer (current_hmm # rest) max_distance =
     (if int current_fuzzer > int current_hmm + max_distance
        then matches_for current_fuzzer rest max_distance
      else if int current_fuzzer + max_distance < int current_hmm
        then []
      else (current_fuzzer, current_hmm, \<bar>int current_fuzzer - int current_hmm\<bar>)
             # matches_for current_fuzzer rest max_distance)"

definition possible_matches :: "nat list \<Rightarrow> nat list \<Rightarrow> int \<Rightarrow> match list" where
  "possible_matches indices_fuzzer indices_hmm max_distance =
     concat (map (\<lambda>current_fuzzer. matches_for current_fuzzer indices_hmm max_distance)
               indices_fuzzer)"

text \<open>
  The greedy loop over \<open>sorted_matches\<close>. The state is
  (\<open>unmatched_fuzzer\<close>, \<open>unmatched_hmm\<close>, \<open>matches\<close>); \<open>list.remove\<close> deletes the
  first occurrence.
\<close>

fun greedy_matching :: "match list \<Rightarrow> nat list \<times> nat list \<times> match list
                          \<Rightarrow> nat list \<times> nat list \<times> match list" where
  "greedy_matching [] st = st"
| "greedy_matching ((index_fuzzer, index_hmm, distance) # rest) (unmatched_fuzzer, unmatched_hmm, matches) =
     (if index_fuzzer \<in> set unmatched_fuzzer \<and> index_hmm \<in> set unmatched_hmm
      then greedy_matching rest
             (remove1 index_fuzzer unmatched_fuzzer, remove1 index_hmm unmatched_hmm,
              matches @ [(index_fuzzer, index_hmm, distance)])
      else greedy_matching rest (unmatched_fuzzer, unmatched_hmm, matches))"

text \<open>
  The scoring loop over \<open>matches\<close>: \<open>(index_fuzzer - index_hmm) / max_distance\<close>
  divides two Python ints and raises ZeroDivisionError for \<open>max_distance = 0\<close>.
\<close>

fun matched_score :: "match list \<Rightarrow> real list \<Rightarrow> real list \<Rightarrow> int \<Rightarrow> real \<Rightarrow> py_error + real" where
  "matched_score [] gradient_fuzzer gradient_hmm max_distance score = Inr score"
| "matched_score ((index_fuzzer, index_hmm, distance) # rest) gradient_fuzzer gradient_hmm max_distance score =
     (if max_distance = 0 then Inl ZeroDivisionError
      else matched_score rest gradient_fuzzer gradient_hmm max_distance
             (score + (((real_of_int (int index_fuzzer - int index_hmm)) / real_of_int max_distance)\<^sup>2
                       + (gradient_fuzzer ! index_fuzzer - gradient_hmm ! index_hmm)\<^sup>2)))"

text \<open>
  The function itself. Python's \<open>sorted\<close> is stable, and so is \<open>sort_key\<close>, the
  insertion sort of HOL: candidates of equal distance keep the order in which the nested
  loops produced them. \<open>number_indices\<close> is computed before the greedy loop removes
  anything. The \<open>print\<close> calls are left out. The result is \<open>Inl\<close> when \<open>np.gradient\<close>
  or one of the two divisions raises.
\<close>

definition calculate_coverage_similarity :: "real list \<Rightarrow> real list \<Rightarrow> int \<Rightarrow> py_error + real" where
  "calculate_coverage_similarity fuzzer0 hmm0 max_distance =
     (let fuzzer = normalize_curve fuzzer0;
          hmm = normalize_curve hmm0
      in case gradient fuzzer of
           Inl e \<Rightarrow> Inl e
         | Inr gradient_fuzzer \<Rightarrow>
        (case gradient hmm of
           Inl e \<Rightarrow> Inl e
         | Inr gradient_hmm \<Rightarrow>
        (let gradient_number = min (length gradient_fuzzer) (length gradient_hmm);
             indices_fuzzer = increase_indices gradient_fuzzer gradient_number;
             indices_hmm = increase_indices gradient_hmm gradient_number;
             number_indices = length indices_fuzzer + length indices_hmm;
             sorted_matches = sort_key (\<lambda>(index_fuzzer, index_hmm, distance). distance)
                                (possible_matches indices_fuzzer indices_hmm max_distance);
             (unmatched_fuzzer, unmatched_hmm, matches) =
                greedy_matching sorted_matches (indices_fuzzer, indices_hmm, [])
         in case matched_score matches gradient_fuzzer gradient_hmm max_distance 0 of
              Inl e \<Rightarrow> Inl e
            | Inr score \<Rightarrow>
                (let score = score + 2 * real (length unmatched_fuzzer)
                                   + 2 * real (length unmatched_hmm)
                 in if 2 * number_indices = 0 then Inl ZeroDivisionError
                    else Inr (score / real (2 * number_indices))))))"

text \<open>
  The growth events of a single curve, as \<open>calculate_coverage_similarity\<close> extracts them
  when both arguments are that curve.
\<close>

definition growth_events :: "real list \<Rightarrow> py_error + nat list" where
  "growth_events curve0 =
     (case gradient (normalize_curve curve0) of
        Inl e \<Rightarrow> Inl e
      | Inr g \<Rightarrow> Inr (increase_indices g (length g)))"

section \<open>hmms.py\<close>

subsection \<open>create\_model\<close>

text \<open>
  What one call of \<open>model.from_samples\<close> does: it returns a fitted model or raises.
  \<open>LinAlgError\<close> and \<open>UFuncTypeError\<close> are the two classes of the first \<open>except\<close>
  clause, \<open>OtherException\<close> is any other instance of \<open>Exception\<close> (the second clause),
  and \<open>BaseExceptionOnly\<close> is a raised object that is no instance of \<open>Exception\<close>
  (KeyboardInterrupt, SystemExit), which no clause catches.
\<close>

datatype fit_exception = LinAlgError | UFuncTypeError | OtherException | BaseExceptionOnly

datatype 'm fit_result = Returns 'm | Raises fit_exception

text \<open>The exceptions one of the two \<open>except\<close> clauses catches: the instances of \<open>Exception\<close>.\<close>

definition caught :: "fit_exception \<Rightarrow> bool" where
  "caught e \<longleftrightarrow> e \<noteq> BaseExceptionOnly"

text \<open>
  The \<open>while\<close> loop. The fitting routine is randomised, so \<open>from_samples\<close> takes the
  number of the call (0 for the first) beside \<open>n_components\<close> and the data. The state is
  (\<open>model\<close>, \<open>successful\<close>, \<open>i\<close>); the last component records the \<open>n_components\<close>
  value of every call made, in order. The result is \<open>Inl\<close> when an exception leaves the
  \<open>try\<close> statement.
\<close>

function create_model_loop ::
  "(nat \<Rightarrow> int \<Rightarrow> 'd \<Rightarrow> 'm fit_result) \<Rightarrow> int \<Rightarrow> 'd \<Rightarrow> int \<Rightarrow> 'm \<times> bool \<times> nat \<times> int list
     \<Rightarrow> (fit_exception + 'm \<times> bool \<times> nat) \<times> int list" where
  "create_model_loop from_samples no_hmm data threshold (model, successful, i, requests) =
     (if \<not> successful \<and> int i < threshold then
        (case from_samples i no_hmm data of
           Returns model' \<Rightarrow>
             create_model_loop from_samples no_hmm data threshold
               (model', True, Suc i, requests @ [no_hmm])
         | Raises e \<Rightarrow>
             if e = LinAlgError \<or> e = UFuncTypeError then
               create_model_loop from_samples no_hmm data threshold
                 (model, successful, Suc i, requests @ [no_hmm])
             else if e = OtherException then
               create_model_loop from_samples no_hmm data threshold
                 (model, successful, Suc i, requests @ [no_hmm])
             else (Inl e, requests @ [no_hmm]))
      else (Inr (model, successful, i), requests))"
  by pat_completeness auto
termination
  by (relation "measure (\<lambda>(from_samples, no_hmm, data, threshold, model, successful, i, requests).
                  nat (threshold - int i))") auto

text \<open>
  \<open>initial_model\<close> is the fresh \<open>HiddenMarkovModel()\<close>; \<open>bake\<close> stands for \<open>model.bake()\<close>,
  which finalises the model in place. The function returns the fitted and baked model,
  or \<open>None\<close>.
\<close>

definition create_model ::
  "(nat \<Rightarrow> int \<Rightarrow> 'd \<Rightarrow> 'm fit_result) \<Rightarrow> ('m \<Rightarrow> 'm) \<Rightarrow> 'm \<Rightarrow> int \<Rightarrow> 'd \<Rightarrow> int
     \<Rightarrow> (fit_exception + 'm option) \<times> int list" where
  "create_model from_samples bake initial_model n_component data threshold =
     (let no_hmm = n_component - 2
      in case create_model_loop from_samples no_hmm data threshold (initial_model, False, 0, []) of
           (Inl e, requests) \<Rightarrow> (Inl e, requests)
         | (Inr (model, successful, i), requests) \<Rightarrow>
             (if successful then Inr (Some (bake model)) else Inr None, requests))"

section \<open>Notions used in the proofs\<close>

text \<open>
  The candidates as a list comprehension: every fuzzer index paired with every hmm
  index within the window, in the order of the nested loops.
\<close>

definition candidates :: "nat list \<Rightarrow> nat list \<Rightarrow> int \<Rightarrow> match list" where
  "candidates fs hs w =
     concat (map (\<lambda>a. map (\<lambda>b. (a, b, \<bar>int a - int b\<bar>))
                        (filter (\<lambda>b. \<bar>int a - int b\<bar> \<le> w) hs)) fs)"

text \<open>The sort key of \<open>sorted_matches\<close>.\<close>

abbreviation match_distance :: "match \<Rightarrow> int" where
  "match_distance \<equiv> \<lambda>(index_fuzzer, index_hmm, distance). distance"

text \<open>
  Two candidates are in conflict when they share the fuzzer index or the hmm index.
  \<open>greedy_select\<close> walks the candidates in order and keeps each one that is not in
  conflict with a candidate kept before.
\<close>

definition conflict :: "match \<Rightarrow> match \<Rightarrow> bool" where
  "conflict p q \<longleftrightarrow> fst p = fst q \<or> fst (snd p) = fst (snd q)"

definition blocked :: "match set \<Rightarrow> match \<Rightarrow> bool" where
  "blocked M p \<longleftrightarrow> (\<exists>q \<in> M. conflict q p)"

fun greedy_select :: "match list \<Rightarrow> match set \<Rightarrow> match set" where
  "greedy_select [] M = M"
| "greedy_select (p # ps) M =
     (if blocked M p then greedy_select ps M else greedy_select ps (insert p M))"

definition selected :: "nat list \<Rightarrow> nat list \<Rightarrow> int \<Rightarrow> match set" where
  "selected fs hs w = greedy_select (sort_key match_distance (candidates fs hs w)) {}"

text \<open>The indices of a curve that no match of a list uses.\<close>

definition unmatched_left :: "nat list \<Rightarrow> match list \<Rightarrow> nat list" where
  "unmatched_left fs ms = filter (\<lambda>a. a \<notin> fst ` set ms) fs"

definition unmatched_right :: "nat list \<Rightarrow> match list \<Rightarrow> nat list" where
  "unmatched_right hs ms = filter (\<lambda>b. b \<notin> (fst \<circ> snd) ` set ms) hs"

text \<open>A match seen from the other curve.\<close>

definition swap_match :: "match \<Rightarrow> match" where
  "swap_match m = (fst (snd m), fst m, snd (snd m))"

text \<open>
  \<open>by_index p q\<close>: \<open>p\<close> comes before \<open>q\<close> in the order the nested loops generate the
  candidates. \<open>by_distance p q\<close>: \<open>p\<close> comes before \<open>q\<close> after the stable sort.
\<close>

definition by_index :: "match \<Rightarrow> match \<Rightarrow> bool" where
  "by_index p q \<longleftrightarrow> fst p < fst q \<or> (fst p = fst q \<and> fst (snd p) < fst (snd q))"

definition by_distance :: "match \<Rightarrow> match \<Rightarrow> bool" where
  "by_distance p q \<longleftrightarrow>
     match_distance p < match_distance q \<or> (match_distance p = match_distance q \<and> by_index p q)"

text \<open>The contribution of one match to the score.\<close>

definition match_term :: "real list \<Rightarrow> real list \<Rightarrow> int \<Rightarrow> match \<Rightarrow> real" where
  "match_term gf gh w m =
     (real_of_int (int (fst m) - int (fst (snd m))) / real_of_int w)\<^sup>2
       + (gf ! fst m - gh ! fst (snd m))\<^sup>2"

text \<open>
  The part of \<open>calculate_coverage_similarity\<close> after the two gradients, word for word.
\<close>

definition similarity_core :: "real list \<Rightarrow> real list \<Rightarrow> int \<Rightarrow> py_error + real" where
  "similarity_core gradient_fuzzer gradient_hmm max_distance =
        (let gradient_number = min (length gradient_fuzzer) (length gradient_hmm);
             indices_fuzzer = increase_indices gradient_fuzzer gradient_number;
             indices_hmm = increase_indices gradient_hmm gradient_number;
             number_indices = length indices_fuzzer + length indices_hmm;
             sorted_matches = sort_key (\<lambda>(index_fuzzer, index_hmm, distance). distance)
                                (possible_matches indices_fuzzer indices_hmm max_distance);
             (unmatched_fuzzer, unmatched_hmm, matches) =
                greedy_matching sorted_matches (indices_fuzzer, indices_hmm, [])
         in case matched_score matches gradient_fuzzer gradient_hmm max_distance 0 of
              Inl e \<Rightarrow> Inl e
            | Inr score \<Rightarrow>
                (let score = score + 2 * real (length unmatched_fuzzer)
                                   + 2 * real (length unmatched_hmm)
                 in if 2 * number_indices = 0 then Inl ZeroDivisionError
                    else Inr (score / real (2 * number_indices))))"

section \<open>Properties of generate\_coverage\_map\<close>

lemma set_item_in_range:
  "0 \<le> k \<Longrightarrow> k < int (length xs) \<Longrightarrow> set_item xs k v = Inr (xs[nat k := v])"
  by (simp add: set_item_def)

lemma set_item_length: "set_item xs k v = Inr ys \<Longrightarrow> length ys = length xs"
  by (auto simp: set_item_def Let_def split: if_splits)

lemma set_item_error: "set_item xs k v = Inl e \<Longrightarrow> e = IndexError"
  by (auto simp: set_item_def Let_def split: if_splits)

lemma set_item_Inr_iff:
  "(\<exists>ys. set_item xs k v = Inr ys) \<longleftrightarrow> - int (length xs) \<le> k \<and> k < int (length xs)"
  by (auto simp: set_item_def Let_def)

lemma popcount_update_le: "popcount (bm[i := v]) \<le> Suc (popcount bm)"
proof (induction bm arbitrary: i)
  case Nil
  then show ?case by (simp add: popcount_def)
next
  case (Cons b bm)
  show ?case
  proof (cases i)
    case 0
    then show ?thesis by (simp add: popcount_def)
  next
    case (Suc j)
    with Cons.IH [of j] show ?thesis by (simp add: popcount_def)
  qed
qed

lemma popcount_replicate_zero [simp]: "popcount (replicate n 0) = 0"
  by (simp add: popcount_def)

lemma set_item_popcount:
  "set_item bm k v = Inr bm' \<Longrightarrow> popcount bm' \<le> Suc (popcount bm)"
  by (auto simp: set_item_def Let_def popcount_update_le split: if_splits)

lemma state_pair_index:
  fixes x y n :: int
  assumes "0 \<le> x" "x < n" "0 \<le> y" "y < n"
  shows "0 \<le> x * n + y \<and> x * n + y < n * n"
proof
  from assms show "0 \<le> x * n + y" by simp
  from assms have "x + 1 \<le> n" by simp
  then have "(x + 1) * n \<le> n * n"
    using assms by (intro mult_right_mono) auto
  with assms show "x * n + y < n * n" by (simp add: algebra_simps)
qed

lemma coverage_loop_in_range:
  assumes "\<forall>s \<in> set nodes. 0 \<le> s \<and> s < n" and "length coverage = nat (n * n)"
  shows "\<exists>bm. coverage_loop nodes n coverage = Inr bm \<and> length bm = nat (n * n)
           \<and> popcount bm + 1 \<le> popcount coverage + max 1 (length nodes)"
  using assms
proof (induction nodes n coverage rule: coverage_loop.induct)
  case (1 x y rest n coverage)
  from "1.prems" have xy: "0 \<le> x" "x < n" "0 \<le> y" "y < n" by auto
  from state_pair_index [OF xy] "1.prems"(2)
  have k: "0 \<le> x * n + y" "x * n + y < int (length coverage)" by auto
  define c' where "c' = coverage[nat (x * n + y) := 1]"
  have si: "set_item coverage (x * n + y) 1 = Inr c'"
    unfolding c'_def by (rule set_item_in_range [OF k])
  have len: "length c' = nat (n * n)" using "1.prems"(2) by (simp add: c'_def)
  have "\<forall>s \<in> set (y # rest). 0 \<le> s \<and> s < n" using "1.prems"(1) by simp
  from "1.IH" [OF si this len] obtain bm where
    bm: "coverage_loop (y # rest) n c' = Inr bm" "length bm = nat (n * n)"
        "popcount bm + 1 \<le> popcount c' + max 1 (length (y # rest))" by blast
  have "popcount c' \<le> Suc (popcount coverage)"
    unfolding c'_def by (rule popcount_update_le)
  with bm si show ?case by simp
qed simp_all

text \<open>
  C8: for a decoded path of length L whose states all lie in \<open>[0, N)\<close>,
  \<open>generate_coverage_map\<close> returns a bitmap of length \<open>N\<^sup>2\<close>; for \<open>L \<ge> 1\<close> at most
  \<open>L - 1\<close> of its bits are set, and for \<open>L \<le> 1\<close> it is the all-zero bitmap. For
  \<open>N = 3\<close> and the path \<open>[0, 1, 2, 1]\<close> exactly the bits 1, 5 and 7 are set.
\<close>

theorem generate_coverage_map_bits:
  "(\<forall>s \<in> set (map fst path). 0 \<le> s \<and> s < n) \<longrightarrow>
     (\<exists>bm. generate_coverage_map (lp, path) n = Inr bm
        \<and> length bm = nat (n * n)
        \<and> (1 \<le> length path \<longrightarrow> popcount bm \<le> length path - 1)
        \<and> (length path \<le> 1 \<longrightarrow> bm = replicate (nat (n * n)) 0))
   \<and> generate_coverage_map (lp', [(0, a), (1, b), (2, c), (1, d)]) 3
        = Inr [0, 1, 0, 0, 0, 1, 0, 1, 0]"
proof (intro conjI impI)
  assume inr: "\<forall>s \<in> set (map fst path). 0 \<le> s \<and> s < n"
  have "length (replicate (nat (n * n)) (0::nat)) = nat (n * n)" by simp
  from coverage_loop_in_range [OF inr this] obtain bm where
    bm: "coverage_loop (map fst path) n (replicate (nat (n * n)) 0) = Inr bm"
        "length bm = nat (n * n)"
        "popcount bm + 1 \<le> max 1 (length path)" by auto
  have g: "generate_coverage_map (lp, path) n = Inr bm"
    using bm(1) by (simp add: generate_coverage_map_def)
  have short: "bm = replicate (nat (n * n)) 0" if "length path \<le> 1"
  proof -
    from that have "path = [] \<or> (\<exists>p. path = [p])"
      by (cases path) (auto simp: length_Suc_conv)
    with bm(1) show ?thesis by auto
  qed
  from g bm(2,3) short
  show "\<exists>bm. generate_coverage_map (lp, path) n = Inr bm
        \<and> length bm = nat (n * n)
        \<and> (1 \<le> length path \<longrightarrow> popcount bm \<le> length path - 1)
        \<and> (length path \<le> 1 \<longrightarrow> bm = replicate (nat (n * n)) 0)"
    by auto
next
  show "generate_coverage_map (lp', [(0, a), (1, b), (2, c), (1, d)]) 3
        = Inr [0, 1, 0, 0, 0, 1, 0, 1, 0]"
    by (simp add: generate_coverage_map_def set_item_def eval_nat_numeral)
qed

theorem generate_coverage_map_bits_witness:
  "generate_coverage_map ((), [(0, ()), (1, ()), (1, ())]) 2 = Inr [0, 1, 0, 1]
   \<and> popcount [0, 1, 0, 1] \<le> length [(0::int, ()), (1, ()), (1, ())] - 1"
proof -
  have "\<forall>s \<in> set (map fst [(0::int, ()), (1, ()), (1, ())]). 0 \<le> s \<and> s < 2" by simp
  with generate_coverage_map_bits [of "[(0, ()), (1, ()), (1, ())]" 2 "()" "()" "()" "()" "()" "()"]
  show ?thesis
    by (simp add: generate_coverage_map_def set_item_def popcount_def eval_nat_numeral)
qed

subsection \<open>Out-of-range states\<close>

lemma coverage_loop_length:
  "coverage_loop nodes n coverage = Inr bm \<Longrightarrow> length bm = length coverage"
proof (induction nodes n coverage rule: coverage_loop.induct)
  case (1 x y rest n coverage)
  then show ?case
    by (auto split: sum.splits dest: set_item_length)
qed simp_all

lemma coverage_loop_fails_iff:
  "(\<exists>bm. coverage_loop nodes n coverage = Inr bm) \<longleftrightarrow>
     (\<forall>k \<in> set (edge_indices nodes n). - int (length coverage) \<le> k \<and> k < int (length coverage))"
proof (induction nodes n coverage rule: coverage_loop.induct)
  case (1 x y rest n coverage)
  show ?case
  proof (cases "set_item coverage (x * n + y) 1")
    case (Inl e)
    with set_item_Inr_iff [of coverage "x * n + y" 1] show ?thesis by auto
  next
    case (Inr c')
    with set_item_Inr_iff [of coverage "x * n + y" 1]
    have ok: "- int (length coverage) \<le> x * n + y \<and> x * n + y < int (length coverage)" by auto
    from Inr have "length c' = length coverage" by (rule set_item_length)
    with "1.IH" [OF Inr] Inr ok show ?thesis by simp
  qed
qed simp_all

lemma coverage_loop_error: "coverage_loop nodes n coverage = Inl e \<Longrightarrow> e = IndexError"
proof (induction nodes n coverage rule: coverage_loop.induct)
  case (1 x y rest n coverage)
  then show ?case
    by (auto split: sum.splits dest: set_item_error)
qed simp_all

text \<open>
  C10 (amended): \<open>generate_coverage_map\<close> raises IndexError exactly when some consecutive
  pair \<open>(x, y)\<close> of the path has its flat position \<open>x * N + y\<close> outside
  \<open>[-N\<^sup>2, N\<^sup>2)\<close>, the positions a Python list of length \<open>N\<^sup>2\<close> accepts; otherwise it
  returns a bitmap, also when a state lies outside \<open>[0, N)\<close>.
\<close>

theorem generate_coverage_map_index_error:
  "(if \<exists>k \<in> set (edge_indices (map fst path) n). k < - (n * n) \<or> n * n \<le> k
    then generate_coverage_map (lp, path) n = Inl IndexError
    else \<exists>bm. generate_coverage_map (lp, path) n = Inr bm)"
proof -
  let ?cov = "replicate (nat (n * n)) (0::nat)"
  have len: "int (length ?cov) = n * n" by simp
  have iff: "(\<exists>bm. coverage_loop (map fst path) n ?cov = Inr bm) \<longleftrightarrow>
     \<not> (\<exists>k \<in> set (edge_indices (map fst path) n). k < - (n * n) \<or> n * n \<le> k)"
    unfolding coverage_loop_fails_iff len by auto
  show ?thesis
  proof (cases "coverage_loop (map fst path) n ?cov")
    case (Inl e)
    then have "e = IndexError" by (rule coverage_loop_error)
    with Inl iff show ?thesis by (auto simp: generate_coverage_map_def)
  next
    case (Inr bm)
    with iff show ?thesis by (auto simp: generate_coverage_map_def)
  qed
qed

theorem generate_coverage_map_index_error_witness:
  "generate_coverage_map ((), [(0, ()), (9, ())]) 3 = Inl IndexError
   \<and> generate_coverage_map ((), [(-1, ()), (0, ())]) 3 = Inr [0, 0, 0, 0, 0, 0, 1, 0, 0]"
  using generate_coverage_map_index_error [of "[(0, ()), (9, ())]" 3 "()"]
  by (simp add: generate_coverage_map_def set_item_def eval_nat_numeral)

text \<open>
  C10 as stated fails: with \<open>N = 3\<close> the path \<open>[0, 3]\<close> contains the state 3 outside
  \<open>[0, 3)\<close> in a consecutive pair, and the result is a bitmap with bit 3 set.
\<close>

theorem generate_coverage_map_out_of_range_counterexample:
  "\<not> (0 \<le> (3::int) \<and> (3::int) < 3)
   \<and> generate_coverage_map ((), [(0, ()), (3, ())]) 3 = Inr [0, 0, 0, 1, 0, 0, 0, 0, 0]"
  by (simp add: generate_coverage_map_def set_item_def eval_nat_numeral)

section \<open>Properties of normalize\<close>

lemma map_const_upt: "map (\<lambda>i. c) [0..<n] = replicate n c"
  by (simp add: map_replicate_const)

lemma normalize_Cons_set:
  "normalize_curve xs =
     (let lo = Min (insert 0 (set xs)); hi = Max (insert 0 (set xs))
      in if lo = hi then 0 # replicate (length xs) 1
         else map (\<lambda>x. (x - lo) / (hi - lo)) xs)"
  by (simp add: normalize_curve_def Let_def map_const_upt)

text \<open>
  C1 (amended): on a flat input curve of \<open>n\<close> elements equal to \<open>c\<close>, \<open>normalize\<close>
  returns \<open>0.0\<close> followed by \<open>n\<close> times \<open>1.0\<close> only when \<open>c = 0\<close> (or the curve is
  empty): these are the inputs for which \<open>min = max\<close> after the leading \<open>0.0\<close> is
  prepended. For \<open>c > 0\<close> it returns \<open>n\<close> times \<open>1.0\<close> and no leading \<open>0.0\<close>, for
  \<open>c < 0\<close> it returns \<open>n\<close> times \<open>0.0\<close>.
\<close>

theorem normalize_flat:
  "normalize_curve (replicate n c) =
     (if c = 0 \<or> n = 0 then 0 # replicate n 1
      else if 0 < c then replicate n 1
      else replicate n 0)"
proof (cases "c = 0 \<or> n = 0")
  case True
  then have s: "insert 0 (set (replicate n c)) = {0}" by auto
  have "Min (insert 0 (set (replicate n c))) = 0" "Max (insert 0 (set (replicate n c))) = 0"
    unfolding s by simp_all
  with True show ?thesis by (simp add: normalize_Cons_set)
next
  case False
  then have s: "insert 0 (set (replicate n c)) = {0, c}" by auto
  show ?thesis
  proof (cases "0 < c")
    case True
    then have "Min (insert 0 (set (replicate n c))) = 0" "Max (insert 0 (set (replicate n c))) = c"
      unfolding s by simp_all
    with False True show ?thesis by (simp add: normalize_Cons_set)
  next
    case neg: False
    with False have "c < 0" by simp
    then have "Min (insert 0 (set (replicate n c))) = c" "Max (insert 0 (set (replicate n c))) = 0"
      unfolding s by simp_all
    with False neg show ?thesis by (simp add: normalize_Cons_set)
  qed
qed

theorem normalize_flat_witness:
  "normalize_curve [0, 0, 0] = [0, 1, 1, 1] \<and> normalize_curve [5, 5] = [1, 1] \<and> normalize_curve [] = [0]"
  using normalize_flat [of 3 0] normalize_flat [of 2 5] normalize_flat [of 0 7]
  by (simp add: eval_nat_numeral)

text \<open>
  C1 as stated fails: \<open>normalize([5,5,5])\<close> is \<open>[1.0, 1.0, 1.0]\<close>, not
  \<open>[0.0, 1.0, 1.0, 1.0]\<close>.
\<close>

theorem normalize_flat_counterexample:
  "normalize_curve [5, 5, 5] = [1, 1, 1] \<and> normalize_curve [5, 5, 5] \<noteq> [0, 1, 1, 1]"
  by (simp add: normalize_curve_def)







section \<open>Event extraction\<close>

lemma increase_indices_iff:
  "i \<in> set (increase_indices g gn) \<longleftrightarrow> i < gn \<and> 0 < g ! i"
  by (auto simp: increase_indices_def increase_bitmap_def split: if_splits)

lemma increase_indices_filter:
  "increase_indices g gn = filter (\<lambda>i. 0 < g ! i) [0..<gn]"
  unfolding increase_indices_def increase_bitmap_def
  by (rule filter_cong) (auto split: if_splits)

lemma length_increase_indices: "length (increase_indices g gn) \<le> gn"
  unfolding increase_indices_filter using length_filter_le [of _ "[0..<gn]"] by simp

lemma gradient_Inr:
  "gradient f = Inr g \<Longrightarrow> 2 \<le> length f \<and> length g = length f"
  by (auto simp: gradient_def Let_def split: if_splits)

lemma gradient_nth:
  "gradient f = Inr g \<Longrightarrow> i < length f \<Longrightarrow>
     g ! i = (if i = 0 then f ! 1 - f ! 0
              else if i = length f - 1 then f ! (length f - 1) - f ! (length f - 2)
              else (f ! (i + 1) - f ! (i - 1)) / 2)"
  by (auto simp: gradient_def Let_def split: if_splits)

text \<open>
  C4 (amended): an index \<open>i\<close> below the gradient length used is a growth event if and
  only if \<open>np.gradient\<close> of the trace is strictly positive at \<open>i\<close>, that is the
  one-sided difference at the two ends and the central difference
  \<open>(t[i+1] - t[i-1]) / 2\<close> in the interior; a trace of length L yields at most L events.
\<close>

theorem growth_event_iff_gradient:
  "gradient t = Inr g \<and> gn \<le> length g \<longrightarrow>
     (i \<in> set (increase_indices g gn) \<longleftrightarrow>
        i < gn \<and> 0 < (if i = 0 then t ! 1 - t ! 0
                       else if i = length t - 1 then t ! (length t - 1) - t ! (length t - 2)
                       else (t ! (i + 1) - t ! (i - 1)) / 2))
     \<and> length (increase_indices g gn) \<le> length t"
proof (intro impI conjI)
  assume a: "gradient t = Inr g \<and> gn \<le> length g"
  then have len: "length g = length t" using gradient_Inr by blast
  show "i \<in> set (increase_indices g gn) \<longleftrightarrow>
        i < gn \<and> 0 < (if i = 0 then t ! 1 - t ! 0
                       else if i = length t - 1 then t ! (length t - 1) - t ! (length t - 2)
                       else (t ! (i + 1) - t ! (i - 1)) / 2)"
  proof (cases "i < gn")
    case True
    with a len have "i < length t" by simp
    from gradient_nth [OF conjunct1 [OF a] this] True show ?thesis
      by (simp only: increase_indices_iff)
  next
    case False
    then show ?thesis by (simp add: increase_indices_iff)
  qed
  from a len length_increase_indices [of g gn]
  show "length (increase_indices g gn) \<le> length t" by simp
qed

lemma gradient_3: "gradient [a, b, c] = Inr [b - a, (c - a) / 2, c - b]"
  by (simp add: gradient_def Let_def upt_rec [of 0] upt_rec [of 1] upt_rec [of 2] eval_nat_numeral)

lemma upt_3: "[0..<3] = [0, 1, 2]"
  by (simp add: upt_rec [of 0] upt_rec [of 1] upt_rec [of 2] eval_nat_numeral)

theorem growth_event_iff_gradient_witness:
  "gradient [0, 1, 1] = Inr [1, 1 / 2, 0] \<and> increase_indices [1, 1 / 2, 0] 3 = [0, 1]
   \<and> 0 < ([0, 1, 1::real] ! 2 - [0, 1, 1] ! 0) / 2"
  using growth_event_iff_gradient [of "[0, 1, 1]" "[1, 1 / 2, 0]" 3 1]
  by (simp add: gradient_3 increase_indices_filter upt_3)

text \<open>
  C4 as stated fails: the normalised trace of \<open>[1, 2, 2]\<close> is \<open>[0.5, 1, 1]\<close>, index 1
  is a growth event and the forward difference at 1 is 0; the normalised trace of
  \<open>[1, 2, 3]\<close> has length 3 and yields 3 events.
\<close>

theorem growth_event_forward_difference_counterexample:
  "normalize_curve [1, 2, 2] = [1 / 2, 1, 1]
   \<and> growth_events [1, 2, 2] = Inr [0, 1]
   \<and> \<not> 0 < normalize_curve [1, 2, 2] ! 2 - normalize_curve [1, 2, 2] ! 1
   \<and> normalize_curve [1, 2, 3] = [1 / 3, 2 / 3, 1]
   \<and> growth_events [1, 2, 3] = Inr [0, 1, 2]
   \<and> \<not> length [0, 1, 2::nat] \<le> length (normalize_curve [1, 2, 3]) - 1"
proof -
  have n1: "normalize_curve [1, 2, 2] = [1 / 2, 1, 1]" by (simp add: normalize_curve_def)
  have n2: "normalize_curve [1, 2, 3] = [1 / 3, 2 / 3, 1]" by (simp add: normalize_curve_def)
  have e1: "growth_events [1, 2, 2] = Inr [0, 1]"
    by (simp add: growth_events_def n1 gradient_3 increase_indices_filter upt_3)
  have e2: "growth_events [1, 2, 3] = Inr [0, 1, 2]"
    by (simp add: growth_events_def n2 gradient_3 increase_indices_filter upt_3)
  show ?thesis unfolding n1 n2 e1 e2 by simp
qed

section \<open>The similarity score\<close>

subsection \<open>Curves without growth events\<close>

text \<open>
  C2: the claim asks for the score \<open>0.0\<close> when neither curve has a growth event. On the
  flat curves \<open>[5, 5, 5]\<close> and \<open>[5, 5, 5]\<close> both normalised curves are \<open>[1, 1, 1]\<close>, no
  index is an event, \<open>number_indices\<close> is 0 and the final division
  \<open>score / (2 * number_indices)\<close> raises ZeroDivisionError.
\<close>

theorem similarity_flat_curves_zero_division:
  "calculate_coverage_similarity [5, 5, 5] [5, 5, 5] 5 = Inl ZeroDivisionError"
proof -
  have n: "normalize_curve [5, 5, 5] = [1, 1, 1]" by (simp add: normalize_curve_def)
  have g: "gradient [1, 1, 1] = Inr [0, 0, 0]" using gradient_3 [of 1 1 1] by simp
  have l: "min (length [0, 0, 0::real]) (length [0, 0, 0::real]) = 3" by simp
  have i: "increase_indices [0, 0, 0] 3 = []" by (simp add: increase_indices_filter upt_3)
  have p: "possible_matches [] [] 5 = []" by (simp add: possible_matches_def)
  show ?thesis
    unfolding calculate_coverage_similarity_def n Let_def g sum.case l i p
    by simp
qed

section \<open>The aggregation loop of calculate\_coverage\<close>

lemma generate_coverage_map_length:
  "generate_coverage_map vr n = Inr bm \<Longrightarrow> length bm = nat (n * n)"
  unfolding generate_coverage_map_def Let_def
  by (drule coverage_loop_length) simp

lemma logical_or_same_length:
  "length xs = length ys \<Longrightarrow> logical_or xs ys = Inr (map2 (\<or>) xs ys)"
  by (simp add: logical_or_def)

lemma sum_bools_or_mono:
  "length acc = length bs \<Longrightarrow> sum_bools acc \<le> sum_bools (map2 (\<or>) acc bs)"
proof (induction acc bs rule: list_induct2)
  case Nil
  then show ?case by simp
next
  case (Cons a acc b bs)
  then show ?case by (auto simp: sum_bools_def)
qed

lemma foldl_or_bitmap_mono:
  "\<forall>bm \<in> set bms. length bm = length acc \<Longrightarrow>
     length (foldl or_bitmap acc bms) = length acc
     \<and> sum_bools acc \<le> sum_bools (foldl or_bitmap acc bms)"
proof (induction bms arbitrary: acc)
  case Nil
  then show ?case by simp
next
  case (Cons bm bms)
  let ?acc' = "or_bitmap acc bm"
  from Cons.prems have len: "length ?acc' = length acc" by simp
  with Cons.prems have "\<forall>b \<in> set bms. length b = length ?acc'" by simp
  from Cons.IH [OF this] len
  have "length (foldl or_bitmap ?acc' bms) = length acc"
    and "sum_bools ?acc' \<le> sum_bools (foldl or_bitmap ?acc' bms)" by simp_all
  moreover have "sum_bools acc \<le> sum_bools ?acc'"
    using Cons.prems by (intro sum_bools_or_mono) simp
  ultimately show ?case by simp
qed

lemma calculate_coverage_data_trace:
  assumes "n * n \<noteq> 0" and "length cs = nat (n * n)"
    and "map (\<lambda>seq. generate_coverage_map (viterbi seq) n) data = map Inr bms"
  shows "calculate_coverage_data viterbi n data (cs, tr) =
           Inr (foldl or_bitmap cs bms,
                tr @ map (\<lambda>k. covered_fraction n (foldl or_bitmap cs (take (Suc k) bms)))
                        [0..<length bms])"
  using assms(2,3)
proof (induction data arbitrary: cs tr bms)
  case Nil
  then show ?case by simp
next
  case (Cons seq data)
  from Cons.prems(2) obtain bm bms' where bms: "bms = bm # bms'"
    and g: "generate_coverage_map (viterbi seq) n = Inr bm"
    and rest: "map (\<lambda>seq. generate_coverage_map (viterbi seq) n) data = map Inr bms'"
    by (cases bms) auto
  let ?cs' = "or_bitmap cs bm"
  have lbm: "length bm = nat (n * n)" using g by (rule generate_coverage_map_length)
  with Cons.prems(1) have lo: "logical_or cs (map (\<lambda>c. c \<noteq> 0) bm) = Inr ?cs'"
    by (intro logical_or_same_length) simp
  have len': "length ?cs' = nat (n * n)" using lbm Cons.prems(1) by simp
  have step: "calculate_coverage_data viterbi n (seq # data) (cs, tr) =
      calculate_coverage_data viterbi n data (?cs', tr @ [covered_fraction n ?cs'])"
    using g lo assms(1) by (simp add: covered_fraction_def)
  have shift: "map (\<lambda>k. covered_fraction n (foldl or_bitmap cs (take (Suc k) (bm # bms'))))
                 [0..<length (bm # bms')]
      = covered_fraction n ?cs'
        # map (\<lambda>k. covered_fraction n (foldl or_bitmap ?cs' (take (Suc k) bms'))) [0..<length bms']"
    by (simp add: map_upt_Suc del: upt_Suc)
  show ?case
    unfolding step Cons.IH [OF len' rest] bms shift by simp
qed

lemma calculate_coverage_data_append:
  "calculate_coverage_data viterbi n (xs @ ys) st =
     (case calculate_coverage_data viterbi n xs st of
        Inl e \<Rightarrow> Inl e
      | Inr st' \<Rightarrow> calculate_coverage_data viterbi n ys st')"
proof (induction xs arbitrary: st)
  case Nil
  then show ?case by simp
next
  case (Cons x xs)
  obtain cs tr where st: "st = (cs, tr)" by (cases st)
  show ?case unfolding st using Cons.IH
    by (simp split: sum.splits)
qed

lemma calculate_coverage_files_concat:
  "calculate_coverage_files viterbi load n files st =
     calculate_coverage_data viterbi n (concat (map load files)) st"
proof (induction files arbitrary: st)
  case Nil
  then show ?case by simp
next
  case (Cons f files)
  then show ?case
    by (simp add: calculate_coverage_data_append split: sum.splits)
qed

text \<open>
  C7: whenever every decoded sequence yields a bitmap and \<open>N \<noteq> 0\<close>, the aggregation loop
  of \<open>calculate_coverage\<close> returns the cumulative OR of all bitmaps and a trace with one
  entry per bitmap, in input order; entry \<open>k\<close> is the number of set bits of the
  cumulative OR of the first \<open>k + 1\<close> bitmaps divided by \<open>N\<^sup>2\<close>, and the trace is
  non-decreasing.
\<close>

theorem calculate_coverage_trace:
  "n \<noteq> 0 \<and> map (\<lambda>seq. generate_coverage_map (viterbi seq) n) (concat (map load files))
               = map Inr bitmaps \<longrightarrow>
   (\<exists>final trace. calculate_coverage viterbi load n files = Inr (final, trace)
      \<and> final = cumulative_or n bitmaps
      \<and> length trace = length bitmaps
      \<and> sorted trace
      \<and> (\<forall>k < length bitmaps.
            trace ! k = covered_fraction n (cumulative_or n (take (Suc k) bitmaps))))"
proof
  assume a: "n \<noteq> 0 \<and> map (\<lambda>seq. generate_coverage_map (viterbi seq) n) (concat (map load files))
               = map Inr bitmaps"
  let ?z = "replicate (nat (n * n)) False"
  let ?trace = "map (\<lambda>k. covered_fraction n (cumulative_or n (take (Suc k) bitmaps)))
                  [0..<length bitmaps]"
  from a have nn: "n * n \<noteq> 0" by simp
  have "0 < n * n" using nn zero_le_square [of n] by linarith
  then have pos: "0 < real_of_int (n * n)" by (simp only: of_int_0_less_iff)
  have run: "calculate_coverage viterbi load n files = Inr (cumulative_or n bitmaps, ?trace)"
    unfolding calculate_coverage_def calculate_coverage_files_concat cumulative_or_def
    using calculate_coverage_data_trace [OF nn _ conjunct2 [OF a], of ?z "[]"] by simp
  have lens: "\<forall>bm \<in> set bitmaps. length bm = length ?z"
  proof
    fix bm assume "bm \<in> set bitmaps"
    then have "Inr bm \<in> set (map (\<lambda>seq. generate_coverage_map (viterbi seq) n)
                               (concat (map load files)))"
      using a by simp
    then obtain seq where "generate_coverage_map (viterbi seq) n = Inr bm" by auto
    then show "length bm = length ?z" by (simp add: generate_coverage_map_length)
  qed
  have mono: "?trace ! i \<le> ?trace ! j" if "i \<le> j" "j < length ?trace" for i j
  proof -
    from that have j: "j < length bitmaps" and i: "i < length bitmaps" by simp_all
    let ?pre = "take (Suc i) bitmaps" and ?mid = "drop (Suc i) (take (Suc j) bitmaps)"
    have split: "take (Suc j) bitmaps = ?pre @ ?mid"
      using that(1) by (metis Suc_le_mono append_take_drop_id min.absorb1 take_take)
    have l1: "length (foldl or_bitmap ?z ?pre) = length ?z"
      using lens by (intro conjunct1 [OF foldl_or_bitmap_mono]) (auto dest: in_set_takeD)
    have "\<forall>bm \<in> set ?mid. length bm = length (foldl or_bitmap ?z ?pre)"
      unfolding l1 using lens by (auto dest!: in_set_dropD in_set_takeD)
    from conjunct2 [OF foldl_or_bitmap_mono [OF this]]
    have "sum_bools (foldl or_bitmap ?z ?pre)
          \<le> sum_bools (foldl or_bitmap (foldl or_bitmap ?z ?pre) ?mid)" .
    moreover have "foldl or_bitmap ?z (take (Suc j) bitmaps)
          = foldl or_bitmap (foldl or_bitmap ?z ?pre) ?mid"
      using arg_cong [OF split, of "foldl or_bitmap ?z"] by (simp only: foldl_append)
    ultimately
    have "sum_bools (cumulative_or n ?pre) \<le> sum_bools (cumulative_or n (take (Suc j) bitmaps))"
      by (simp only: cumulative_or_def)
    then have "covered_fraction n (cumulative_or n ?pre)
               \<le> covered_fraction n (cumulative_or n (take (Suc j) bitmaps))"
      unfolding covered_fraction_def using pos by (simp add: divide_right_mono)
    with i j show ?thesis by simp
  qed
  have "sorted ?trace"
    unfolding sorted_iff_nth_mono using mono by blast
  with run show "\<exists>final trace. calculate_coverage viterbi load n files = Inr (final, trace)
      \<and> final = cumulative_or n bitmaps
      \<and> length trace = length bitmaps
      \<and> sorted trace
      \<and> (\<forall>k < length bitmaps.
            trace ! k = covered_fraction n (cumulative_or n (take (Suc k) bitmaps)))"
    by simp
qed

theorem calculate_coverage_trace_witness:
  "calculate_coverage (\<lambda>q. ((), map (\<lambda>x. (x, ())) q)) (\<lambda>f. f) 2 [[[0, 0], [0, 1]], [[0, 0]]]
     = Inr ([True, True, False, False], [1 / 4, 1 / 2, 1 / 2])"
proof -
  let ?v = "\<lambda>q::int list. ((), map (\<lambda>x. (x, ())) q)"
  let ?files = "[[[0, 0], [0, 1]], [[0, 0::int]]]"
  let ?bms = "[[1, 0, 0, 0], [0, 1, 0, 0], [1, 0, 0, 0::nat]]"
  have g: "map (\<lambda>seq. generate_coverage_map (?v seq) 2) (concat (map (\<lambda>f. f) ?files))
             = map Inr ?bms"
    by (simp add: generate_coverage_map_def set_item_def eval_nat_numeral)
  have "(2::int) \<noteq> 0" by simp
  with calculate_coverage_trace [of 2 ?v "\<lambda>f. f" ?files ?bms] g
  obtain final trace where r: "calculate_coverage ?v (\<lambda>f. f) 2 ?files = Inr (final, trace)"
      "final = cumulative_or 2 ?bms" "length trace = 3"
      "\<forall>k < 3. trace ! k = covered_fraction 2 (cumulative_or 2 (take (Suc k) ?bms))"
    by auto
  have c: "cumulative_or 2 ?bms = [True, True, False, False]"
    by (simp add: cumulative_or_def eval_nat_numeral)
  have t0: "trace ! 0 = 1 / 4"
    using r(4) [rule_format, of 0]
    by (simp add: covered_fraction_def cumulative_or_def sum_bools_def eval_nat_numeral)
  have t1: "trace ! 1 = 1 / 2"
    using r(4) [rule_format, of 1]
    by (simp add: covered_fraction_def cumulative_or_def sum_bools_def eval_nat_numeral)
  have t2: "trace ! 2 = 1 / 2"
    using r(4) [rule_format, of 2]
    by (simp add: covered_fraction_def cumulative_or_def sum_bools_def eval_nat_numeral)
  have "trace = [trace ! 0, trace ! 1, trace ! 2]"
    using r(3) by (auto simp: list_eq_iff_nth_eq less_Suc_eq eval_nat_numeral)
  then have "trace = [1 / 4, 1 / 2, 1 / 2]" by (simp only: t0 t1 t2)
  with r(1,2) c show ?thesis by simp
qed

section \<open>The retry loop of create\_model\<close>

declare create_model_loop.simps [simp del]

lemma create_model_loop_stop:
  "successful \<or> \<not> int i < threshold \<Longrightarrow>
     create_model_loop fs no_hmm data threshold (model, successful, i, requests)
       = (Inr (model, successful, i), requests)"
  by (subst create_model_loop.simps) auto

lemma create_model_loop_returns:
  "int i < threshold \<Longrightarrow> fs i no_hmm data = Returns m \<Longrightarrow>
     create_model_loop fs no_hmm data threshold (model, False, i, requests)
       = (Inr (m, True, Suc i), requests @ [no_hmm])"
  by (subst create_model_loop.simps) (simp add: create_model_loop_stop)

lemma create_model_loop_caught:
  "int i < threshold \<Longrightarrow> fs i no_hmm data = Raises e \<Longrightarrow> caught e \<Longrightarrow>
     create_model_loop fs no_hmm data threshold (model, False, i, requests)
       = create_model_loop fs no_hmm data threshold (model, False, Suc i, requests @ [no_hmm])"
  by (subst create_model_loop.simps) (cases e; simp add: caught_def)

lemma create_model_loop_uncaught:
  "int i < threshold \<Longrightarrow> fs i no_hmm data = Raises BaseExceptionOnly \<Longrightarrow>
     create_model_loop fs no_hmm data threshold (model, False, i, requests)
       = (Inl BaseExceptionOnly, requests @ [no_hmm])"
  by (subst create_model_loop.simps) simp

lemma create_model_loop_requests:
  "create_model_loop fs no_hmm data threshold (model, successful, i, requests) = (res, requests')
     \<Longrightarrow> (\<exists>k. requests' = requests @ replicate k no_hmm \<and> int (i + k) \<le> max (int i) threshold)
         \<and> (\<forall>e. res = Inl e \<longrightarrow> \<not> caught e)"
proof (induction fs no_hmm data threshold "(model, successful, i, requests)"
         arbitrary: model successful i requests rule: create_model_loop.induct)
  case (1 fs no_hmm data threshold model successful i requests)
  let ?goal = "\<lambda>i requests. (\<exists>k. requests' = requests @ replicate k no_hmm
                   \<and> int (i + k) \<le> max (int i) threshold)
                 \<and> (\<forall>e. res = Inl e \<longrightarrow> \<not> caught e)"
  show ?case
  proof (cases "\<not> successful \<and> int i < threshold")
    case False
    with "1.prems" have "requests' = requests" "res = Inr (model, successful, i)"
      by (auto simp: create_model_loop_stop)
    then show ?thesis by (intro conjI exI [of _ 0]) simp_all
  next
    case True
    have one: "?goal i requests"
      if "requests' = requests @ [no_hmm]" "\<forall>e. res = Inl e \<longrightarrow> \<not> caught e"
    proof -
      from that(1) have "requests' = requests @ replicate 1 no_hmm" by simp
      moreover from True have "int (i + 1) \<le> max (int i) threshold" by simp
      ultimately show ?thesis using that(2) by blast
    qed
    have ext: "?goal i requests" if "?goal (Suc i) (requests @ [no_hmm])"
    proof -
      from that obtain k where k: "requests' = (requests @ [no_hmm]) @ replicate k no_hmm"
        "int (Suc i + k) \<le> max (int (Suc i)) threshold" by blast
      from k(1) have "requests' = requests @ replicate (Suc k) no_hmm"
        by (simp add: replicate_app_Cons_same)
      moreover from k(2) True have "int (i + Suc k) \<le> max (int i) threshold" by simp
      ultimately show ?thesis using that by blast
    qed
    show ?thesis
    proof (cases "fs i no_hmm data")
      case (Returns m)
      with True "1.prems" have "requests' = requests @ [no_hmm]" "res = Inr (m, True, Suc i)"
        by (simp_all add: create_model_loop_returns)
      then show ?thesis by (intro one) simp_all
    next
      case (Raises e)
      show ?thesis
      proof (cases "caught e")
        case c: True
        from create_model_loop_caught [where fs=fs and i=i and no_hmm=no_hmm and data=data,
               OF _ Raises c] True "1.prems"
        have run: "create_model_loop fs no_hmm data threshold
                (model, successful, Suc i, requests @ [no_hmm]) = (res, requests')" by simp
        show ?thesis
        proof (cases "e = LinAlgError \<or> e = UFuncTypeError")
          case e1: True
          from "1.hyps"(2) [OF True Raises e1 run] show ?thesis by (rule ext)
        next
          case e2: False
          with c have e3: "e = OtherException" by (cases e) (auto simp: caught_def)
          from "1.hyps"(3) [OF True Raises e2 e3 run] show ?thesis by (rule ext)
        qed
      next
        case False
        then have "e = BaseExceptionOnly" by (simp add: caught_def)
        with True Raises "1.prems"
        have "requests' = requests @ [no_hmm]" "res = Inl BaseExceptionOnly"
          by (simp_all add: create_model_loop_uncaught)
        then show ?thesis by (intro one) (simp_all add: caught_def)
      qed
    qed
  qed
qed

lemma create_model_loop_first_success:
  assumes "int k < threshold" "fs k no_hmm data = Returns m"
    and "\<forall>j. i \<le> j \<and> j < k \<longrightarrow> (\<exists>e. fs j no_hmm data = Raises e \<and> caught e)"
    and "i \<le> k"
  shows "create_model_loop fs no_hmm data threshold (model, False, i, requests)
           = (Inr (m, True, Suc k), requests @ replicate (Suc k - i) no_hmm)"
  using assms(3,4)
proof (induction "k - i" arbitrary: i requests)
  case 0
  then have "i = k" by simp
  with assms(1,2) show ?case by (simp add: create_model_loop_returns)
next
  case (Suc d)
  then have lt: "i < k" by simp
  with Suc.prems(1) obtain e where e: "fs i no_hmm data = Raises e" "caught e" by blast
  from lt assms(1) have ith: "int i < threshold" by simp
  have d: "d = k - Suc i" using Suc.hyps(2) by simp
  have rest: "\<forall>j. Suc i \<le> j \<and> j < k \<longrightarrow> (\<exists>e. fs j no_hmm data = Raises e \<and> caught e)"
    using Suc.prems(1) by simp
  from lt have le: "Suc i \<le> k" by simp
  have r: "replicate (Suc k - i) no_hmm = no_hmm # replicate (Suc k - Suc i) no_hmm"
    using lt by (simp add: Suc_diff_le)
  show ?case
    unfolding create_model_loop_caught [where fs=fs and i=i and no_hmm=no_hmm and data=data, OF ith e] Suc.hyps(1) [OF d rest le] r by simp
qed

lemma create_model_loop_all_fail:
  assumes "\<forall>j. i \<le> j \<and> int j < threshold \<longrightarrow> (\<exists>e. fs j no_hmm data = Raises e \<and> caught e)"
  shows "create_model_loop fs no_hmm data threshold (model, False, i, requests)
           = (Inr (model, False, max i (nat threshold)),
              requests @ replicate (nat threshold - i) no_hmm)"
  using assms
proof (induction "nat threshold - i" arbitrary: i requests)
  case 0
  then have "\<not> int i < threshold" by simp
  moreover from this have "max i (nat threshold) = i" by simp
  ultimately show ?case using 0 by (simp add: create_model_loop_stop)
next
  case (Suc d)
  then have ith: "int i < threshold" by simp
  with Suc.prems obtain e where e: "fs i no_hmm data = Raises e" "caught e" by blast
  have d: "d = nat threshold - Suc i" using Suc.hyps(2) by simp
  have rest: "\<forall>j. Suc i \<le> j \<and> int j < threshold \<longrightarrow> (\<exists>e. fs j no_hmm data = Raises e \<and> caught e)"
    using Suc.prems by simp
  have r: "replicate (nat threshold - i) no_hmm = no_hmm # replicate (nat threshold - Suc i) no_hmm"
    using Suc.hyps(2) by (metis d replicate_Suc)
  have m: "max (Suc i) (nat threshold) = max i (nat threshold)" using ith by simp
  show ?case
    unfolding create_model_loop_caught [where fs=fs and i=i and no_hmm=no_hmm and data=data, OF ith e] Suc.hyps(1) [OF d rest] r m by simp
qed


text \<open>
  C9: \<open>create_model\<close> passes \<open>n_component - 2\<close> as \<open>n_components\<close> to every call of the
  fitting routine and makes at most \<open>threshold\<close> calls (none for \<open>threshold \<le> 0\<close>). When
  call \<open>k < threshold\<close> is the first that returns, the earlier ones having raised
  exceptions the \<open>except\<close> clauses catch, exactly \<open>k + 1\<close> calls are made and the baked
  model of call \<open>k\<close> is returned. When every call below \<open>threshold\<close> raises such an
  exception, \<open>threshold\<close> calls are made and \<open>None\<close> is returned. No exception that the
  clauses catch leaves the function.
\<close>

theorem create_model_retry:
  "(case create_model from_samples bake initial_model n_component data threshold of
      (result, requests) \<Rightarrow>
        (\<forall>r \<in> set requests. r = n_component - 2)
        \<and> int (length requests) \<le> max 0 threshold
        \<and> (\<forall>e. caught e \<longrightarrow> result \<noteq> Inl e)
        \<and> (\<forall>k m. int k < threshold
                  \<and> from_samples k (n_component - 2) data = Returns m
                  \<and> (\<forall>j<k. \<exists>e. from_samples j (n_component - 2) data = Raises e \<and> caught e)
               \<longrightarrow> result = Inr (Some (bake m)) \<and> length requests = Suc k)
        \<and> ((\<forall>j. int j < threshold
                  \<longrightarrow> (\<exists>e. from_samples j (n_component - 2) data = Raises e \<and> caught e))
               \<longrightarrow> result = Inr None \<and> int (length requests) = max 0 threshold))"
proof -
  let ?no = "n_component - 2"
  obtain res requests where
    loop: "create_model_loop from_samples ?no data threshold (initial_model, False, 0, []) = (res, requests)"
    by (cases "create_model_loop from_samples ?no data threshold (initial_model, False, 0, [])")
  define result where
    "result = (case res of Inl e \<Rightarrow> Inl e
               | Inr (model, successful, i) \<Rightarrow> if successful then Inr (Some (bake model)) else Inr None)"
  have cm: "create_model from_samples bake initial_model n_component data threshold = (result, requests)"
    unfolding create_model_def Let_def loop result_def
    by (simp split: sum.splits prod.splits)
  from create_model_loop_requests [OF loop] obtain k where
    k: "requests = replicate k ?no" "int k \<le> max 0 threshold"
    and noprop: "\<forall>e. res = Inl e \<longrightarrow> \<not> caught e" by auto
  have p1: "\<forall>r \<in> set requests. r = ?no" using k(1) by simp
  have p2: "int (length requests) \<le> max 0 threshold" using k by simp
  have p3: "\<forall>e. caught e \<longrightarrow> result \<noteq> Inl e"
    using noprop by (auto simp: result_def split: sum.splits prod.splits if_splits)
  have p4: "\<forall>k m. int k < threshold
                  \<and> from_samples k ?no data = Returns m
                  \<and> (\<forall>j<k. \<exists>e. from_samples j ?no data = Raises e \<and> caught e)
               \<longrightarrow> result = Inr (Some (bake m)) \<and> length requests = Suc k"
  proof (intro allI impI, elim conjE)
    fix k' m
    assume that: "int k' < threshold" "from_samples k' ?no data = Returns m"
       "\<forall>j<k'. \<exists>e. from_samples j ?no data = Raises e \<and> caught e"
    from that(3) have "\<forall>j. 0 \<le> j \<and> j < k' \<longrightarrow> (\<exists>e. from_samples j ?no data = Raises e \<and> caught e)"
      by simp
    from create_model_loop_first_success [where fs=from_samples and no_hmm="?no" and data=data,
           OF that(1,2) this, of initial_model "[]"] loop
    have "res = Inr (m, True, Suc k')" "requests = replicate (Suc k') ?no" by simp_all
    then show "result = Inr (Some (bake m)) \<and> length requests = Suc k'"
      by (simp add: result_def)
  qed
  have p5: "(\<forall>j. int j < threshold
                  \<longrightarrow> (\<exists>e. from_samples j ?no data = Raises e \<and> caught e))
               \<longrightarrow> result = Inr None \<and> int (length requests) = max 0 threshold"
  proof
    assume that: "\<forall>j. int j < threshold
                  \<longrightarrow> (\<exists>e. from_samples j ?no data = Raises e \<and> caught e)"
    from that have "\<forall>j. 0 \<le> j \<and> int j < threshold
                      \<longrightarrow> (\<exists>e. from_samples j ?no data = Raises e \<and> caught e)" by simp
    from create_model_loop_all_fail [where fs=from_samples and no_hmm="?no" and data=data,
           OF this, of initial_model "[]"] loop
    have "res = Inr (initial_model, False, max 0 (nat threshold))"
         "requests = replicate (nat threshold) ?no" by simp_all
    then show "result = Inr None \<and> int (length requests) = max 0 threshold"
      by (simp add: result_def)
  qed
  show ?thesis unfolding cm prod.case by (intro conjI p1 p2 p3 p4 p5)
qed

theorem create_model_retry_witness:
  "create_model (\<lambda>k n d. if k < 2 then Raises LinAlgError else Returns (k, n))
       (\<lambda>m. (fst m, snd m + 100)) (0, 0) 5 () 20
     = (Inr (Some (2, 103)), [3, 3, 3])"
proof -
  let ?fs = "\<lambda>(k::nat) (n::int) (d::unit). if k < 2 then Raises LinAlgError else Returns (k, n)"
  let ?bake = "\<lambda>m::nat \<times> int. (fst m, snd m + 100)"
  obtain result requests where cm: "create_model ?fs ?bake (0, 0) 5 () 20 = (result, requests)"
    by (cases "create_model ?fs ?bake (0, 0) 5 () 20")
  have h: "int 2 < 20 \<and> ?fs 2 (5 - 2) () = Returns (2, 3)
           \<and> (\<forall>j<2. \<exists>e. ?fs j (5 - 2) () = Raises e \<and> caught e)"
    by (simp add: caught_def)
  from create_model_retry [where from_samples="?fs" and bake="?bake" and initial_model="(0, 0)"
         and n_component=5 and data="()" and threshold=20] cm
  have all3: "\<forall>r \<in> set requests. r = 3"
    and res: "\<forall>k m. int k < 20 \<and> ?fs k (5 - 2) () = Returns m
                  \<and> (\<forall>j<k. \<exists>e. ?fs j (5 - 2) () = Raises e \<and> caught e)
               \<longrightarrow> result = Inr (Some (?bake m)) \<and> length requests = Suc k"
    by simp_all
  from res [rule_format, OF h] have r: "result = Inr (Some (2, 103))" "length requests = 3"
    by simp_all
  from all3 r(2) have "requests = [3, 3, 3]"
    by (auto simp: list_eq_iff_nth_eq less_Suc_eq eval_nat_numeral)
  with cm r(1) show ?thesis by simp
qed

section \<open>Candidates, greedy matching and scoring\<close>

subsection \<open>Candidates\<close>

lemma increase_indices_sorted: "sorted_wrt (<) (increase_indices g gn)"
  unfolding increase_indices_filter
  by (rule sorted_wrt_filter) (simp add: sorted_wrt_upt)

lemma increase_indices_distinct: "distinct (increase_indices g gn)"
  unfolding increase_indices_filter by simp

text \<open>
  On an ascending list of hmm indices the \<open>continue\<close> and \<open>break\<close> tests select exactly
  the indices within \<open>max_distance\<close> of the fuzzer index.
\<close>

lemma matches_for_filter:
  "sorted_wrt (<) hs \<Longrightarrow>
     matches_for a hs w =
       map (\<lambda>b. (a, b, \<bar>int a - int b\<bar>)) (filter (\<lambda>b. \<bar>int a - int b\<bar> \<le> w) hs)"
proof (induction hs)
  case Nil
  then show ?case by simp
next
  case (Cons h hs)
  then have IH: "matches_for a hs w =
       map (\<lambda>b. (a, b, \<bar>int a - int b\<bar>)) (filter (\<lambda>b. \<bar>int a - int b\<bar> \<le> w) hs)"
    and later: "\<forall>b \<in> set hs. h < b" by simp_all
  show ?case
  proof (cases "int a > int h + w")
    case True
    then have "\<not> \<bar>int a - int h\<bar> \<le> w" by linarith
    with True IH show ?thesis by simp
  next
    case False
    show ?thesis
    proof (cases "int a + w < int h")
      case True
      then have "\<forall>b \<in> set (h # hs). \<not> \<bar>int a - int b\<bar> \<le> w"
        using later by fastforce
      then have "filter (\<lambda>b. \<bar>int a - int b\<bar> \<le> w) (h # hs) = []"
        by (simp only: filter_False)
      with True False show ?thesis by simp
    next
      case far: False
      with False have "\<bar>int a - int h\<bar> \<le> w" by linarith
      with far False IH show ?thesis by simp
    qed
  qed
qed

lemma possible_matches_candidates:
  "sorted_wrt (<) hs \<Longrightarrow> possible_matches fs hs w = candidates fs hs w"
  by (simp add: possible_matches_def candidates_def matches_for_filter)

lemma candidates_set:
  "set (candidates fs hs w) =
     {(a, b, d). a \<in> set fs \<and> b \<in> set hs \<and> d = \<bar>int a - int b\<bar> \<and> d \<le> w}"
  by (auto simp: candidates_def)

subsection \<open>The greedy loop\<close>




subsection \<open>The scoring loop\<close>


subsection \<open>Stable sorting by distance\<close>



section \<open>The score of a curve against itself\<close>







section \<open>Symmetry of the similarity score\<close>

subsection \<open>The greedy loop as a selection of pairwise compatible candidates\<close>

lemma conflict_sym: "conflict p q \<longleftrightarrow> conflict q p"
  by (auto simp: conflict_def)

lemma conflict_refl [simp]: "conflict p p"
  by (simp add: conflict_def)

lemma blocked_insert: "blocked (insert q M) p \<longleftrightarrow> conflict q p \<or> blocked M p"
  by (auto simp: blocked_def)

lemma greedy_select_commute:
  "\<forall>x \<in> set xs. \<not> conflict x p \<Longrightarrow>
     greedy_select (xs @ p # ys) M = greedy_select (p # xs @ ys) M"
proof (induction xs arbitrary: M)
  case Nil
  then show ?case by simp
next
  case (Cons x xs)
  then have nc: "\<not> conflict x p" "\<not> conflict p x"
    and IH: "\<And>M. greedy_select (xs @ p # ys) M = greedy_select (p # xs @ ys) M"
    by (simp_all add: conflict_sym)
  show ?case
  proof (cases "blocked M x")
    case True
    then have "blocked (insert p M) x" by (simp add: blocked_insert)
    with True IH [of M] show ?thesis by simp
  next
    case False
    have bp: "blocked (insert x M) p \<longleftrightarrow> blocked M p" using nc by (simp add: blocked_insert)
    have bx: "blocked (insert p M) x \<longleftrightarrow> blocked M x" using nc by (simp add: blocked_insert)
    from False IH [of "insert x M"] bp bx show ?thesis
      by (simp add: insert_commute)
  qed
qed

text \<open>
  The selection depends only on the relative order of conflicting candidates: two
  arrangements of the same candidates that order every conflicting pair the same way
  select the same set.
\<close>

lemma greedy_select_order:
  assumes "distinct xs" "distinct ys" "set xs = set ys"
    and "sorted_wrt (\<lambda>p q. conflict p q \<longrightarrow> R p q) xs"
    and "sorted_wrt (\<lambda>p q. conflict p q \<longrightarrow> R p q) ys"
    and "\<And>p q. R p q \<Longrightarrow> \<not> R q p"
  shows "greedy_select xs M = greedy_select ys M"
  using assms(1-5)
proof (induction xs arbitrary: ys M)
  case Nil
  then show ?case by simp
next
  case (Cons p xs)
  from Cons.prems(3) have "p \<in> set ys" by auto
  then obtain us vs where ys: "ys = us @ p # vs" by (auto simp: in_set_conv_decomp)
  from Cons.prems(2) ys have pn: "p \<notin> set us" "p \<notin> set vs" and d': "distinct (us @ vs)"
    by auto
  have set': "set xs = set (us @ vs)"
  proof -
    from Cons.prems(1) have "p \<notin> set xs" by simp
    with Cons.prems(3) pn show ?thesis unfolding ys by auto
  qed
  have nc: "\<forall>x \<in> set us. \<not> conflict x p"
  proof
    fix x assume x: "x \<in> set us"
    show "\<not> conflict x p"
    proof
      assume c: "conflict x p"
      from Cons.prems(5) x have "conflict x p \<longrightarrow> R x p"
        unfolding ys by (auto simp: sorted_wrt_append)
      with c have 1: "R x p" by simp
      from x set' have "x \<in> set xs" by simp
      with Cons.prems(4) have "conflict p x \<longrightarrow> R p x" by auto
      with c have "R p x" by (simp add: conflict_sym)
      with 1 assms(6) show False by blast
    qed
  qed
  have s1: "sorted_wrt (\<lambda>p q. conflict p q \<longrightarrow> R p q) xs" using Cons.prems(4) by simp
  have s2: "sorted_wrt (\<lambda>p q. conflict p q \<longrightarrow> R p q) (us @ vs)"
    using Cons.prems(5) unfolding ys by (auto simp: sorted_wrt_append)
  from Cons.prems(1) have d1: "distinct xs" by simp
  have IH: "greedy_select xs M' = greedy_select (us @ vs) M'" for M'
    by (rule Cons.IH [OF d1 d' set' s1 s2])
  have "greedy_select ys M = greedy_select (p # us @ vs) M"
    unfolding ys by (rule greedy_select_commute [OF nc])
  also have "\<dots> = greedy_select (p # xs) M"
    by (simp add: IH)
  finally show ?case by simp
qed



subsection \<open>The loop of the source computes the selection\<close>

lemma remove1_filter_distinct:
  "distinct xs \<Longrightarrow> remove1 a (filter P xs) = filter (\<lambda>x. x \<noteq> a \<and> P x) xs"
proof -
  assume "distinct xs"
  then have "distinct (filter P xs)" by simp
  then have "remove1 a (filter P xs) = filter (\<lambda>x. x \<noteq> a) (filter P xs)"
    by (simp add: distinct_remove1_removeAll removeAll_filter_not_eq) (metis)
  then show ?thesis by (simp add: conj_commute)
qed

lemma greedy_matching_select:
  assumes "distinct fs" "distinct hs"
    and "\<forall>(a, b, d) \<in> set cs. a \<in> set fs \<and> b \<in> set hs"
  shows "\<exists>ms'. greedy_matching cs (unmatched_left fs ms, unmatched_right hs ms, ms)
                  = (unmatched_left fs ms', unmatched_right hs ms', ms')
               \<and> set ms' = greedy_select cs (set ms)
               \<and> (distinct ms \<longrightarrow> distinct ms')"
  using assms(3)
proof (induction cs arbitrary: ms)
  case Nil
  then show ?case by simp
next
  case (Cons c cs)
  obtain a b d where c: "c = (a, b, d)" by (cases c)
  from Cons.prems c have ab: "a \<in> set fs" "b \<in> set hs"
    and rest: "\<forall>(a, b, d) \<in> set cs. a \<in> set fs \<and> b \<in> set hs" by auto
  have test: "a \<in> set (unmatched_left fs ms) \<and> b \<in> set (unmatched_right hs ms)
                \<longleftrightarrow> \<not> blocked (set ms) c"
    using ab unfolding c unmatched_left_def unmatched_right_def blocked_def conflict_def
    by (auto simp: image_iff) 
  show ?case
  proof (cases "blocked (set ms) c")
    case True
    with test have "\<not> (a \<in> set (unmatched_left fs ms) \<and> b \<in> set (unmatched_right hs ms))"
      by simp
    then have "greedy_matching (c # cs) (unmatched_left fs ms, unmatched_right hs ms, ms)
               = greedy_matching cs (unmatched_left fs ms, unmatched_right hs ms, ms)"
      unfolding c by auto
    with Cons.IH [OF rest, of ms] True show ?thesis by simp
  next
    case False
    let ?ms = "ms @ [c]"
    from False test have t: "a \<in> set (unmatched_left fs ms) \<and> b \<in> set (unmatched_right hs ms)"
      by simp
    have l: "remove1 a (unmatched_left fs ms) = unmatched_left fs ?ms"
      unfolding unmatched_left_def remove1_filter_distinct [OF assms(1)] c
      by (rule filter_cong) auto
    have r: "remove1 b (unmatched_right hs ms) = unmatched_right hs ?ms"
      unfolding unmatched_right_def remove1_filter_distinct [OF assms(2)] c
      by (rule filter_cong) auto
    have step: "greedy_matching (c # cs) (unmatched_left fs ms, unmatched_right hs ms, ms)
               = greedy_matching cs (unmatched_left fs ?ms, unmatched_right hs ?ms, ?ms)"
      using t unfolding c l [unfolded c, symmetric] r [unfolded c, symmetric] by simp
    from False have "c \<notin> set ms" by (auto simp: blocked_def)
    then have dist: "distinct ms \<longrightarrow> distinct ?ms" by simp
    from Cons.IH [OF rest, of ?ms] obtain ms' where
      ms': "greedy_matching cs (unmatched_left fs ?ms, unmatched_right hs ?ms, ?ms)
              = (unmatched_left fs ms', unmatched_right hs ms', ms')"
           "set ms' = greedy_select cs (set ?ms)" "distinct ?ms \<longrightarrow> distinct ms'"
      by blast
    from ms' step False dist show ?thesis by auto
  qed
qed

subsection \<open>Exchanging the two curves\<close>

lemma swap_match_simp [simp]: "swap_match (a, b, d) = (b, a, d)"
  by (simp add: swap_match_def)

lemma swap_match_involution [simp]: "swap_match (swap_match m) = m"
  by (simp add: swap_match_def)

lemma inj_swap_match: "inj_on swap_match S"
  by (rule inj_on_inverseI [of _ swap_match]) simp

lemma conflict_swap [simp]: "conflict (swap_match p) (swap_match q) \<longleftrightarrow> conflict p q"
  by (auto simp: conflict_def swap_match_def)

lemma blocked_swap [simp]: "blocked (swap_match ` M) (swap_match p) \<longleftrightarrow> blocked M p"
  by (simp add: blocked_def)

lemma greedy_select_swap:
  "greedy_select (map swap_match cs) (swap_match ` M) = swap_match ` greedy_select cs M"
proof (induction cs arbitrary: M)
  case Nil
  then show ?case by simp
next
  case (Cons c cs)
  from Cons.IH [of M] Cons.IH [of "insert c M"] show ?case by simp
qed

lemma candidates_swap_set:
  "set (candidates hs fs w) = swap_match ` set (candidates fs hs w)"
proof -
  have "\<bar>int b - int a\<bar> = \<bar>int a - int b\<bar>" for a b :: nat by simp
  then show ?thesis
    unfolding candidates_set by (auto simp: image_iff) 
qed



subsection \<open>The order of the sorted candidates\<close>

lemma by_distance_asym: "by_distance p q \<Longrightarrow> \<not> by_distance q p"
  by (auto simp: by_distance_def by_index_def)

lemma by_distance_swap_conflict:
  "conflict p q \<Longrightarrow> by_distance (swap_match p) (swap_match q) \<Longrightarrow> by_distance p q"
  by (auto simp: by_distance_def by_index_def conflict_def swap_match_def split: prod.splits)

lemma candidates_by_index:
  assumes "sorted_wrt (<) fs" "sorted_wrt (<) hs"
  shows "sorted_wrt by_index (candidates fs hs w)"
  using assms(1)
proof (induction fs)
  case Nil
  then show ?case by (simp add: candidates_def)
next
  case (Cons a fs)
  let ?row = "map (\<lambda>b. (a, b, \<bar>int a - int b\<bar>)) (filter (\<lambda>b. \<bar>int a - int b\<bar> \<le> w) hs)"
  have c: "candidates (a # fs) hs w = ?row @ candidates fs hs w"
    by (simp add: candidates_def)
  have "sorted_wrt (<) (filter (\<lambda>b. \<bar>int a - int b\<bar> \<le> w) hs)"
    using assms(2) by (rule sorted_wrt_filter)
  then have row: "sorted_wrt by_index ?row"
    by (simp add: sorted_wrt_map by_index_def)
  have cross: "\<forall>p \<in> set ?row. \<forall>q \<in> set (candidates fs hs w). by_index p q"
    using Cons.prems by (auto simp: candidates_set by_index_def)
  from Cons have "sorted_wrt by_index (candidates fs hs w)" by simp
  with row cross show ?case unfolding c by (simp add: sorted_wrt_append)
qed

lemma insort_key_stable_order:
  fixes f :: "'a \<Rightarrow> int"
  assumes "sorted_wrt (\<lambda>p q. f p < f q \<or> (f p = f q \<and> R p q)) ys" "\<forall>y \<in> set ys. R x y"
  shows "sorted_wrt (\<lambda>p q. f p < f q \<or> (f p = f q \<and> R p q)) (insort_key f x ys)"
  using assms
proof (induction ys)
  case Nil
  then show ?case by simp
next
  case (Cons y ys)
  show ?case
  proof (cases "f x \<le> f y")
    case True
    have "f x < f z \<or> (f x = f z \<and> R x z)" if "z \<in> set (y # ys)" for z
    proof -
      from Cons.prems(1) that have "f y \<le> f z" by auto
      with True Cons.prems(2) that show ?thesis by fastforce
    qed
    with True Cons.prems(1) show ?thesis by simp
  next
    case False
    then have "f y < f x" by simp
    with False Cons show ?thesis by (auto simp: set_insort_key)
  qed
qed

lemma sort_key_stable_order:
  fixes f :: "'a \<Rightarrow> int"
  assumes "sorted_wrt R xs"
  shows "sorted_wrt (\<lambda>p q. f p < f q \<or> (f p = f q \<and> R p q)) (sort_key f xs)"
  using assms
proof (induction xs)
  case Nil
  then show ?case by simp
next
  case (Cons x xs)
  then have "sorted_wrt (\<lambda>p q. f p < f q \<or> (f p = f q \<and> R p q)) (sort_key f xs)"
    and "\<forall>y \<in> set (sort_key f xs). R x y" by simp_all
  then show ?case by (simp add: insort_key_stable_order)
qed

lemma sorted_candidates_by_distance:
  assumes "sorted_wrt (<) fs" "sorted_wrt (<) hs"
  shows "sorted_wrt by_distance (sort_key match_distance (candidates fs hs w))"
proof -
  have "by_distance = (\<lambda>p q. match_distance p < match_distance q
                          \<or> (match_distance p = match_distance q \<and> by_index p q))"
    by (intro ext) (simp add: by_distance_def)
  then show ?thesis
    using sort_key_stable_order [OF candidates_by_index [OF assms], of match_distance w]
    by (simp only:)
qed

lemma sorted_wrt_irrefl_distinct:
  "sorted_wrt R xs \<Longrightarrow> (\<And>x. \<not> R x x) \<Longrightarrow> distinct xs"
  by (induction xs) auto

lemma sorted_candidates_distinct:
  assumes "sorted_wrt (<) fs" "sorted_wrt (<) hs"
  shows "distinct (sort_key match_distance (candidates fs hs w))"
proof (rule sorted_wrt_irrefl_distinct)
  show "sorted_wrt by_distance (sort_key match_distance (candidates fs hs w))"
    by (rule sorted_candidates_by_distance [OF assms])
  show "\<not> by_distance x x" for x
    using by_distance_asym [of x x] by blast
qed

text \<open>
  Exchanging the curves exchanges the two indices of every selected match and selects
  nothing else.
\<close>

lemma greedy_select_exchange:
  assumes "sorted_wrt (<) fs" "sorted_wrt (<) hs"
  shows "greedy_select (sort_key match_distance (candidates hs fs w)) {}
           = swap_match ` greedy_select (sort_key match_distance (candidates fs hs w)) {}"
proof -
  let ?L1 = "sort_key match_distance (candidates fs hs w)"
  let ?L2 = "sort_key match_distance (candidates hs fs w)"
  let ?L2' = "map swap_match ?L2"
  have d1: "distinct ?L1" by (rule sorted_candidates_distinct [OF assms])
  have "distinct ?L2" by (rule sorted_candidates_distinct [OF assms(2,1)])
  then have d2: "distinct ?L2'" by (simp add: distinct_map inj_swap_match)
  have set: "set ?L1 = set ?L2'"
    by (simp add: candidates_swap_set [of hs fs w] image_image)
  have s1: "sorted_wrt (\<lambda>p q. conflict p q \<longrightarrow> by_distance p q) ?L1"
    using sorted_candidates_by_distance [OF assms, of w]
    by (rule sorted_wrt_mono_rel [rotated]) simp
  have "sorted_wrt (\<lambda>p q. by_distance (swap_match p) (swap_match q)) ?L2'"
    using sorted_candidates_by_distance [OF assms(2,1), of w]
    by (simp add: sorted_wrt_map)
  then have s2: "sorted_wrt (\<lambda>p q. conflict p q \<longrightarrow> by_distance p q) ?L2'"
    by (rule sorted_wrt_mono_rel [rotated]) (simp add: by_distance_swap_conflict)
  have "greedy_select ?L1 {} = greedy_select ?L2' {}"
    using d1 d2 set s1 s2 by_distance_asym by (rule greedy_select_order)
  also have "\<dots> = swap_match ` greedy_select ?L2 {}"
    using greedy_select_swap [of ?L2 "{}"] by simp
  finally have "swap_match ` greedy_select ?L1 {} = swap_match ` swap_match ` greedy_select ?L2 {}"
    by simp
  then show ?thesis by (simp add: image_image)
qed



subsection \<open>The score as a sum over the selected matches\<close>

lemma matched_score_sum:
  "w \<noteq> 0 \<Longrightarrow> matched_score ms gf gh w s = Inr (s + sum_list (map (match_term gf gh w) ms))"
proof (induction ms arbitrary: s)
  case Nil
  then show ?case by simp
next
  case (Cons m ms)
  obtain a b d where m: "m = (a, b, d)" by (cases m)
  from Cons show ?case unfolding m by (simp add: match_term_def add.assoc)
qed

lemma matched_score_zero_window:
  "matched_score ms gf gh 0 s = (if ms = [] then Inr s else Inl ZeroDivisionError)"
proof (cases ms)
  case Nil
  then show ?thesis by simp
next
  case (Cons m ms')
  obtain a b d where m: "m = (a, b, d)" by (cases m)
  show ?thesis unfolding Cons m by simp
qed

lemma matched_score_set:
  assumes "distinct ms"
  shows "matched_score ms gf gh w 0 =
           (if set ms \<noteq> {} \<and> w = 0 then Inl ZeroDivisionError
            else Inr (sum (match_term gf gh w) (set ms)))"
proof (cases "w = 0")
  case True
  then show ?thesis by (simp add: matched_score_zero_window)
next
  case False
  then show ?thesis
    by (simp add: matched_score_sum sum_list_distinct_conv_sum_set [OF assms])
qed

lemma match_term_swap: "match_term gh gf w (swap_match m) = match_term gf gh w m"
proof -
  have "real_of_int (int (fst (snd m)) - int (fst m)) = - real_of_int (int (fst m) - int (fst (snd m)))"
    by simp
  then have "(real_of_int (int (fst (snd m)) - int (fst m)) / real_of_int w)\<^sup>2
             = (real_of_int (int (fst m) - int (fst (snd m))) / real_of_int w)\<^sup>2"
    by (simp only: minus_divide_left [symmetric] power2_minus)
  then show ?thesis
    by (simp add: match_term_def swap_match_def power2_commute [of "gh ! fst (snd m)"])
qed

subsection \<open>The part of the function after the two gradients\<close>

lemma calculate_coverage_similarity_core:
  "calculate_coverage_similarity fuzzer hmm w =
     (case gradient (normalize_curve fuzzer) of
        Inl e \<Rightarrow> Inl e
      | Inr gf \<Rightarrow> (case gradient (normalize_curve hmm) of
                     Inl e \<Rightarrow> Inl e
                   | Inr gh \<Rightarrow> similarity_core gf gh w))"
  unfolding calculate_coverage_similarity_def similarity_core_def Let_def ..

lemma case_if_error:
  "(case (if c then Inl x else Inr y) of Inl e \<Rightarrow> Inl e | Inr s \<Rightarrow> f s)
     = (if c then Inl x else f y)"
  by simp

lemma similarity_core_selected:
  fixes gf gh :: "real list" and w :: int
  defines "gn \<equiv> min (length gf) (length gh)"
  defines "fs \<equiv> increase_indices gf gn" and "hs \<equiv> increase_indices gh gn"
  shows "similarity_core gf gh w =
     (if selected fs hs w \<noteq> {} \<and> w = 0 then Inl ZeroDivisionError
      else if 2 * (length fs + length hs) = 0 then Inl ZeroDivisionError
      else Inr ((sum (match_term gf gh w) (selected fs hs w)
                  + 2 * real (length (filter (\<lambda>a. a \<notin> fst ` selected fs hs w) fs))
                  + 2 * real (length (filter (\<lambda>b. b \<notin> (fst \<circ> snd) ` selected fs hs w) hs)))
                / real (2 * (length fs + length hs))))"
proof -
  let ?L = "sort_key match_distance (candidates fs hs w)"
  have sf: "sorted_wrt (<) fs" and sh: "sorted_wrt (<) hs"
    unfolding fs_def hs_def by (rule increase_indices_sorted)+
  have df: "distinct fs" and dh: "distinct hs"
    unfolding fs_def hs_def by (rule increase_indices_distinct)+
  have pm: "possible_matches fs hs w = candidates fs hs w"
    using sh by (rule possible_matches_candidates)
  have inset: "\<forall>(a, b, d) \<in> set ?L. a \<in> set fs \<and> b \<in> set hs"
    by (auto simp: candidates_set)
  have e: "unmatched_left fs [] = fs" "unmatched_right hs [] = hs"
    by (simp_all add: unmatched_left_def unmatched_right_def)
  from greedy_matching_select [OF df dh inset, of "[]"] obtain ms where
    ms: "greedy_matching ?L (fs, hs, []) = (unmatched_left fs ms, unmatched_right hs ms, ms)"
        "set ms = selected fs hs w" "distinct ms"
    unfolding e selected_def by auto
  have sc: "matched_score ms gf gh w 0 =
           (if selected fs hs w \<noteq> {} \<and> w = 0 then Inl ZeroDivisionError
            else Inr (sum (match_term gf gh w) (selected fs hs w)))"
    using matched_score_set [OF ms(3), of gf gh w] by (simp only: ms(2))
  have ul: "unmatched_left fs ms = filter (\<lambda>a. a \<notin> fst ` selected fs hs w) fs"
    by (simp only: unmatched_left_def ms(2))
  have ur: "unmatched_right hs ms = filter (\<lambda>b. b \<notin> (fst \<circ> snd) ` selected fs hs w) hs"
    by (simp only: unmatched_right_def ms(2))
  have "similarity_core gf gh w =
     (case matched_score ms gf gh w 0 of
        Inl e \<Rightarrow> Inl e
      | Inr score \<Rightarrow>
          if 2 * (length fs + length hs) = 0 then Inl ZeroDivisionError
          else Inr ((score + 2 * real (length (unmatched_left fs ms))
                           + 2 * real (length (unmatched_right hs ms)))
                    / real (2 * (length fs + length hs))))"
    by (simp only: similarity_core_def Let_def gn_def [symmetric] fs_def [symmetric]
          hs_def [symmetric] pm ms(1) prod.case)
  also have "\<dots> =
     (if selected fs hs w \<noteq> {} \<and> w = 0 then Inl ZeroDivisionError
      else if 2 * (length fs + length hs) = 0 then Inl ZeroDivisionError
      else Inr ((sum (match_term gf gh w) (selected fs hs w)
                  + 2 * real (length (filter (\<lambda>a. a \<notin> fst ` selected fs hs w) fs))
                  + 2 * real (length (filter (\<lambda>b. b \<notin> (fst \<circ> snd) ` selected fs hs w) hs)))
                / real (2 * (length fs + length hs))))"
    unfolding sc ul ur by (rule case_if_error)
  finally show ?thesis .
qed

lemma selected_exchange:
  "sorted_wrt (<) fs \<Longrightarrow> sorted_wrt (<) hs \<Longrightarrow> selected hs fs w = swap_match ` selected fs hs w"
  unfolding selected_def by (rule greedy_select_exchange)

lemma similarity_core_symmetric: "similarity_core gf gh w = similarity_core gh gf w"
proof -
  define gn where "gn = min (length gf) (length gh)"
  define fs where "fs = increase_indices gf gn"
  define hs where "hs = increase_indices gh gn"
  have gn': "min (length gh) (length gf) = gn" by (simp add: gn_def min.commute)
  have sf: "sorted_wrt (<) fs" and sh: "sorted_wrt (<) hs"
    unfolding fs_def hs_def by (rule increase_indices_sorted)+
  let ?M = "selected fs hs w"
  have ex: "selected hs fs w = swap_match ` ?M" using sf sh by (rule selected_exchange)
  have i1: "fst ` swap_match ` ?M = (fst \<circ> snd) ` ?M"
    by (simp add: image_image swap_match_def)
  have i2: "(fst \<circ> snd) ` swap_match ` ?M = fst ` ?M"
    by (simp add: image_image swap_match_def)
  have sum: "sum (match_term gh gf w) (swap_match ` ?M) = sum (match_term gf gh w) ?M"
    by (simp add: sum.reindex [OF inj_swap_match] match_term_swap)
  have ne: "swap_match ` ?M \<noteq> {} \<longleftrightarrow> ?M \<noteq> {}" by simp
  have l: "similarity_core gf gh w =
     (if ?M \<noteq> {} \<and> w = 0 then Inl ZeroDivisionError
      else if 2 * (length fs + length hs) = 0 then Inl ZeroDivisionError
      else Inr ((sum (match_term gf gh w) ?M
                  + 2 * real (length (filter (\<lambda>a. a \<notin> fst ` ?M) fs))
                  + 2 * real (length (filter (\<lambda>b. b \<notin> (fst \<circ> snd) ` ?M) hs)))
                / real (2 * (length fs + length hs))))"
    using similarity_core_selected [of gf gh w] by (simp only: gn_def fs_def hs_def)
  have r: "similarity_core gh gf w =
     (if swap_match ` ?M \<noteq> {} \<and> w = 0 then Inl ZeroDivisionError
      else if 2 * (length hs + length fs) = 0 then Inl ZeroDivisionError
      else Inr ((sum (match_term gh gf w) (swap_match ` ?M)
                  + 2 * real (length (filter (\<lambda>a. a \<notin> fst ` swap_match ` ?M) hs))
                  + 2 * real (length (filter (\<lambda>b. b \<notin> (fst \<circ> snd) ` swap_match ` ?M) fs)))
                / real (2 * (length hs + length fs))))"
    using similarity_core_selected [of gh gf w]
    by (simp only: gn' fs_def [symmetric] hs_def [symmetric] ex)
  have c1: "length hs + length fs = length fs + length hs" by (rule add.commute)
  have c2: "sum (match_term gf gh w) ?M
              + 2 * real (length (filter (\<lambda>a. a \<notin> (fst \<circ> snd) ` ?M) hs))
              + 2 * real (length (filter (\<lambda>b. b \<notin> fst ` ?M) fs))
            = sum (match_term gf gh w) ?M
              + 2 * real (length (filter (\<lambda>a. a \<notin> fst ` ?M) fs))
              + 2 * real (length (filter (\<lambda>b. b \<notin> (fst \<circ> snd) ` ?M) hs))"
    by simp
  show ?thesis unfolding l r sum i1 i2 ne c1 c2 ..
qed

lemma gradient_error: "gradient f = Inl e \<Longrightarrow> e = ValueError"
  by (auto simp: gradient_def Let_def split: if_splits)

text \<open>
  C5: the score is symmetric in the two curves, for every pair of curves and every
  window; when the call fails for one order of the arguments it fails with the same
  exception for the other.
\<close>

theorem similarity_symmetric:
  "calculate_coverage_similarity curve_a curve_b max_distance
     = calculate_coverage_similarity curve_b curve_a max_distance"
proof (cases "gradient (normalize_curve curve_a)")
  case a: (Inl ea)
  then have ea: "ea = ValueError" by (rule gradient_error)
  show ?thesis
  proof (cases "gradient (normalize_curve curve_b)")
    case (Inl eb)
    then have "eb = ValueError" by (rule gradient_error)
    with a ea Inl show ?thesis by (simp add: calculate_coverage_similarity_core)
  next
    case (Inr gb)
    with a ea show ?thesis by (simp add: calculate_coverage_similarity_core)
  qed
next
  case a: (Inr ga)
  show ?thesis
  proof (cases "gradient (normalize_curve curve_b)")
    case (Inl eb)
    then have "eb = ValueError" by (rule gradient_error)
    with a Inl show ?thesis by (simp add: calculate_coverage_similarity_core)
  next
    case (Inr gb)
    with a show ?thesis
      by (simp add: calculate_coverage_similarity_core similarity_core_symmetric [of ga gb])
  qed
qed



theorem similarity_symmetric_witness:
  "calculate_coverage_similarity [0, 1, 1] [0, 0, 1] 5 = Inr (1 / 50)
   \<and> calculate_coverage_similarity [0, 0, 1] [0, 1, 1] 5 = Inr (1 / 50)"
proof -
  have n1: "normalize_curve [0, 1, 1] = [0, 1, 1]" by (simp add: normalize_curve_def)
  have n2: "normalize_curve [0, 0, 1] = [0, 0, 1]" by (simp add: normalize_curve_def)
  have g1: "gradient [0, 1, 1] = Inr [1, 1 / 2, 0]" using gradient_3 [of 0 1 1] by simp
  have g2: "gradient [0, 0, 1] = Inr [0, 1 / 2, 1]" using gradient_3 [of 0 0 1] by simp
  have l: "min (length [1, 1 / 2, 0::real]) (length [0, 1 / 2, 1::real]) = 3" by simp
  have i1: "increase_indices [1, 1 / 2, 0] 3 = [0, 1]"
    by (simp add: increase_indices_filter upt_3)
  have i2: "increase_indices [0, 1 / 2, 1] 3 = [1, 2]"
    by (simp add: increase_indices_filter upt_3)
  have p: "possible_matches [0, 1] [1, 2] 5 = [(0, 1, 1), (0, 2, 2), (1, 1, 0), (1, 2, 1)]"
    by (simp add: possible_matches_def)
  have s: "sort_key match_distance [(0, 1, 1), (0, 2, 2), (1, 1, 0), (1, 2, 1::int)]
             = [(1::nat, 1::nat, 0), (0, 1, 1), (1, 2, 1), (0, 2, 2)]"
    by (simp add: sort_key_def)
  have g: "greedy_matching [(1, 1, 0), (0, 1, 1), (1, 2, 1), (0, 2, 2)] ([0, 1], [1, 2], [])
             = ([], [], [(1, 1, 0), (0, 2, 2)])"
    by simp
  have m: "matched_score [(1, 1, 0), (0, 2, 2)] [1, 1 / 2, 0] [0, 1 / 2, 1] 5 0 = Inr (4 / 25)"
    by (simp add: power2_eq_square)
  have "calculate_coverage_similarity [0, 1, 1] [0, 0, 1] 5 = Inr (1 / 50)"
    unfolding calculate_coverage_similarity_def Let_def n1 n2 g1 g2 sum.case l i1 i2 p s g
      prod.case m
    by simp
  with similarity_symmetric [of "[0, 1, 1]" "[0, 0, 1]" 5] show ?thesis by simp
qed

end
